theory Spec2Isabelle
  imports Complex_Main
begin

section \<open>Strings and the string methods used by \<open>root.py\<close>\<close>

text \<open>
  Python strings are modelled as \<open>string\<close> (lists of characters). The characters that
  \<open>expand_braces\<close> treats specially get names.
\<close>

abbreviation bslash :: char where "bslash \<equiv> CHR 0x5C"
abbreviation newline :: char where "newline \<equiv> CHR 0x0A"
abbreviation lbrace :: char where "lbrace \<equiv> CHR 0x7B"
abbreviation rbrace :: char where "rbrace \<equiv> CHR 0x7D"
abbreviation comma :: char where "comma \<equiv> CHR 0x2C"

text \<open>
  \<open>s.find(sub)\<close>: the lowest index at which \<open>sub\<close> occurs in \<open>s\<close>, and \<open>-1\<close> when it
  does not occur.
\<close>

fun str_find :: "string \<Rightarrow> string \<Rightarrow> int" where
  "str_find [] sub = (if sub = [] then 0 else - 1)"
| "str_find (c # t) sub =
     (if take (length sub) (c # t) = sub then 0
      else (let r = str_find t sub in if r < 0 then - 1 else r + 1))"

text \<open>The slices \<open>s[:i]\<close> and \<open>s[i:]\<close>; a negative index counts from the end.\<close>

definition slice_to :: "'a list \<Rightarrow> int \<Rightarrow> 'a list" where
  "slice_to s i = (if i < 0 then take (nat (int (length s) + i)) s else take (nat i) s)"

definition slice_from :: "'a list \<Rightarrow> int \<Rightarrow> 'a list" where
  "slice_from s i = (if i < 0 then drop (nat (int (length s) + i)) s else drop (nat i) s)"

text \<open>\<open>s.strip(chars)\<close>: leading and trailing characters that occur in \<open>chars\<close> are removed.\<close>

definition strip :: "string \<Rightarrow> string \<Rightarrow> string" where
  "strip chars s =
     rev (dropWhile (\<lambda>c. c \<in> set chars) (rev (dropWhile (\<lambda>c. c \<in> set chars) s)))"

text \<open>\<open>s.split(c)\<close> for a one-character separator: always at least one piece.\<close>

fun str_split :: "char \<Rightarrow> string \<Rightarrow> string list" where
  "str_split sep [] = [[]]"
| "str_split sep (x # xs) =
     (let r = str_split sep xs
      in if x = sep then [] # r else (x # hd r) # tl r)"

text \<open>\<open>sub.replace('}', '\\}')\<close>: every closing brace gets a backslash in front.\<close>

definition escape_rbrace :: "string \<Rightarrow> string" where
  "escape_rbrace s = concat (map (\<lambda>c. if c = rbrace then [bslash, rbrace] else [c]) s)"

text \<open>
  \<open>s.replace('\\}', '}')\<close>: the occurrences of the two characters backslash, closing
  brace are replaced from left to right, without overlap.
\<close>

fun unescape_rbrace :: "string \<Rightarrow> string" where
  "unescape_rbrace (a # b # rest) =
     (if a = bslash \<and> b = rbrace then rbrace # unescape_rbrace rest
      else a # unescape_rbrace (b # rest))"
| "unescape_rbrace s = s"

section \<open>The regular expression of \<open>expand_braces\<close>\<close>

text \<open>
  \<open>p = re.compile(r'.*(\{.+?[^\\]\})')\<close> and \<open>p.search(s)\<close>, as the backtracking matcher
  runs them. \<open>lazy_tail\<close> is the part \<open>.+?[^\\]\}\<close> after the opening brace: the lazy
  \<open>.+?\<close> takes one character that is not a newline, then tries \<open>[^\\]\}\<close>, and takes one
  more character each time that fails. The result is the number of characters matched.
\<close>

fun lazy_tail :: "string \<Rightarrow> nat option" where
  "lazy_tail (c # d # e # rest) =
     (if c = newline then None
      else if d \<noteq> bslash \<and> e = rbrace then Some 3
      else map_option Suc (lazy_tail (d # e # rest)))"
| "lazy_tail s = None"

text \<open>Group 1 tried at the head of the text: the length of what it matches.\<close>

definition group_here :: "string \<Rightarrow> nat option" where
  "group_here s =
     (case s of [] \<Rightarrow> None
      | c # cs \<Rightarrow> if c = lbrace then map_option Suc (lazy_tail cs) else None)"

text \<open>
  The whole pattern tried at the head of the text. The greedy \<open>.*\<close> first takes every
  character it can (no newline) and gives them back one at a time; the result is the
  offset and the length of group 1.
\<close>

fun match_here :: "string \<Rightarrow> (nat \<times> nat) option" where
  "match_here [] = None"
| "match_here (c # cs) =
     (case (if c = newline then None else match_here cs) of
        Some (j, n) \<Rightarrow> Some (Suc j, n)
      | None \<Rightarrow> map_option (Pair 0) (group_here (c # cs)))"

text \<open>\<open>p.search(s)\<close>: the first start position at which the pattern matches.\<close>

fun re_search :: "string \<Rightarrow> (nat \<times> nat) option" where
  "re_search [] = None"
| "re_search (c # cs) =
     (case match_here (c # cs) of
        Some r \<Rightarrow> Some r
      | None \<Rightarrow> map_option (\<lambda>(j, n). (Suc j, n)) (re_search cs))"

section \<open>Helper facts for the termination of \<open>expand_braces\<close>\<close>

text \<open>
  A closing brace can end group 1 only if the character before it is not a backslash.
  \<open>closers s\<close> counts these; \<open>closers_after p s\<close> does so for a text that follows the
  character \<open>p\<close>. The first character of a string has nothing before it and cannot end
  a group, which is the count after a backslash.
\<close>

fun closers_after :: "char \<Rightarrow> string \<Rightarrow> nat" where
  "closers_after p [] = 0"
| "closers_after p (c # cs) = (if c = rbrace \<and> p \<noteq> bslash then 1 else 0) + closers_after c cs"

definition closers :: "string \<Rightarrow> nat" where
  "closers s = closers_after bslash s"

text \<open>
  The shape of a text that group 1 can match: an opening brace, one or more characters
  other than a newline, a character other than a backslash, a closing brace.
\<close>

definition brace_group :: "string \<Rightarrow> bool" where
  "brace_group sub \<longleftrightarrow>
     (\<exists>mid y. sub = lbrace # mid @ [y, rbrace] \<and> mid \<noteq> [] \<and> newline \<notin> set mid \<and> y \<noteq> bslash)"

lemma closers_after_append:
  "closers_after p (xs @ ys) = closers_after p xs + closers_after (last (p # xs)) ys"
  by (induction xs arbitrary: p) auto

lemma closers_after_pred_mono:
  "q' \<noteq> bslash \<Longrightarrow> closers_after q ys \<le> closers_after q' ys"
  by (cases ys) auto

lemma closers_after_delete:
  assumes "X \<noteq> []" "last X \<noteq> bslash"
  shows "closers_after p (Y1 @ Y2) \<le> closers_after p (Y1 @ X @ Y2)"
  using assms closers_after_pred_mono[of "last X" "last (p # Y1)" Y2]
  by (simp add: closers_after_append)

lemma closers_after_escape: "closers_after q (escape_rbrace xs) = 0"
  by (induction xs arbitrary: q) (auto simp: escape_rbrace_def)

lemma lazy_tail_shape:
  "lazy_tail t = Some n \<Longrightarrow>
     \<exists>mid y. take n t = mid @ [y, rbrace] \<and> mid \<noteq> [] \<and> newline \<notin> set mid \<and> y \<noteq> bslash \<and> n \<le> length t"
proof (induction t arbitrary: n rule: lazy_tail.induct)
  case (1 c d e rest)
  show ?case
  proof (cases "c = newline")
    case True with 1(2) show ?thesis by simp
  next
    case False
    show ?thesis
    proof (cases "d \<noteq> bslash \<and> e = rbrace")
      case True
      with False 1(2) have "n = 3" by simp
      with True False show ?thesis by (intro exI[of _ "[c]"] exI[of _ d]) simp
    next
      case F2: False
      with False 1(2) obtain m where m: "lazy_tail (d # e # rest) = Some m" "n = Suc m"
        by auto
      from 1(1)[OF False F2 m(1)] obtain mid y where
        "take m (d # e # rest) = mid @ [y, rbrace]" "mid \<noteq> []" "newline \<notin> set mid" "y \<noteq> bslash" "m \<le> length (d # e # rest)"
        by blast
      with m False show ?thesis by (intro exI[of _ "c # mid"] exI[of _ y]) simp
    qed
  qed
qed simp_all

lemma group_here_shape:
  "group_here t = Some n \<Longrightarrow> n \<le> length t \<and> brace_group (take n t)"
proof -
  assume a: "group_here t = Some n"
  then obtain cs m where t: "t = lbrace # cs" and m: "lazy_tail cs = Some m" and n: "n = Suc m"
    by (auto simp: group_here_def split: list.splits if_splits)
  from lazy_tail_shape[OF m] obtain mid y where
    "take m cs = mid @ [y, rbrace]" "mid \<noteq> []" "newline \<notin> set mid" "y \<noteq> bslash" "m \<le> length cs"
    by blast
  with t n show ?thesis by (auto simp: brace_group_def)
qed

lemma match_here_shape:
  "match_here t = Some (j, n) \<Longrightarrow> j + n \<le> length t \<and> brace_group (take n (drop j t))"
proof (induction t arbitrary: j n)
  case Nil
  then show ?case by simp
next
  case (Cons c cs)
  show ?case
  proof (cases "if c = newline then None else match_here cs")
    case None
    with Cons.prems have "group_here (c # cs) = Some n" "j = 0" by auto
    with group_here_shape[of "c # cs" n] show ?thesis by simp
  next
    case (Some r)
    obtain j' n' where r: "r = (j', n')" by (cases r)
    with Some Cons.prems have "match_here cs = Some (j', n')" "j = Suc j'" "n = n'"
      by (auto split: if_splits)
    with Cons.IH[of j' n'] show ?thesis by simp
  qed
qed

lemma re_search_shape:
  "re_search t = Some (j, n) \<Longrightarrow> j + n \<le> length t \<and> brace_group (take n (drop j t))"
proof (induction t arbitrary: j n)
  case Nil
  then show ?case by simp
next
  case (Cons c cs)
  show ?case
  proof (cases "match_here (c # cs)")
    case None
    with Cons.prems obtain j' where "re_search cs = Some (j', n)" "j = Suc j'"
      by auto
    with Cons.IH[of j' n] show ?thesis by simp
  next
    case (Some r)
    with Cons.prems have "match_here (c # cs) = Some (j, n)" by simp
    from match_here_shape[OF this] show ?thesis .
  qed
qed

lemma str_find_occurs:
  "s = a @ sub @ b \<Longrightarrow>
     \<exists>pre post. s = pre @ sub @ post \<and> str_find s sub = int (length pre)"
proof (induction s arbitrary: a)
  case Nil
  then show ?case by simp
next
  case (Cons c t)
  show ?case
  proof (cases "take (length sub) (c # t) = sub")
    case True
    then have "c # t = [] @ sub @ drop (length sub) (c # t)"
      by (metis append_Nil append_take_drop_id)
    with True show ?thesis by (intro exI[of _ "[]"] exI[of _ "drop (length sub) (c # t)"]) simp
  next
    case False
    with Cons.prems obtain a' where a: "a = c # a'" by (cases a) auto
    with Cons.prems have "t = a' @ sub @ b" by simp
    from Cons.IH[OF this] obtain pre post where
      p: "t = pre @ sub @ post" "str_find t sub = int (length pre)" by blast
    with False show ?thesis
      by (intro exI[of _ "c # pre"] exI[of _ post]) (simp add: Let_def)
  qed
qed

lemma slice_to_pre: "slice_to (pre @ rest) (int (length pre)) = pre"
  by (simp add: slice_to_def)

lemma slice_from_post:
  "sub \<noteq> [] \<Longrightarrow> slice_from (pre @ sub @ post) (int (length pre) + int (length sub) - 1 + 1) = post"
  by (simp add: slice_from_def nat_add_distrib)

text \<open>What the search result gives: the cut of the string used by both branches.\<close>

lemma search_cut:
  assumes "re_search s = Some (j, n)"
  shows "\<exists>pre post. s = pre @ take n (drop j s) @ post
           \<and> slice_to s (str_find s (take n (drop j s))) = pre
           \<and> slice_from s (str_find s (take n (drop j s)) + int (length (take n (drop j s))) - 1 + 1) = post
           \<and> brace_group (take n (drop j s))"
proof -
  let ?sub = "take n (drop j s)"
  from re_search_shape[OF assms] have jn: "j + n \<le> length s" and bg: "brace_group ?sub" by auto
  have "s = take j s @ ?sub @ drop n (drop j s)"
    by (simp only: append_take_drop_id)
  from str_find_occurs[OF this] obtain pre post where
    p: "s = pre @ ?sub @ post" "str_find s ?sub = int (length pre)" by blast
  from bg obtain w where "?sub = lbrace # w" unfolding brace_group_def by blast
  then have ne: "?sub \<noteq> []" by (simp only: list.distinct simp_thms)
  have 1: "slice_to s (str_find s ?sub) = pre"
    using slice_to_pre[of pre "?sub @ post"] p by simp
  have 2: "slice_from s (str_find s ?sub + int (length ?sub) - 1 + 1) = post"
    using slice_from_post[OF ne, of pre post] p by simp
  from p(1) 1 2 bg show ?thesis by blast
qed

lemma str_split_nonempty: "str_split c t \<noteq> []"
  by (cases t) (auto simp: Let_def)

lemma str_split_pieces:
  "(\<exists>B. t = hd (str_split c t) @ B) \<and>
   (\<forall>pat \<in> set (tl (str_split c t)). \<exists>A B. t = A @ pat @ B \<and> A \<noteq> [] \<and> last A = c)"
proof (induction t)
  case Nil
  then show ?case by simp
next
  case (Cons x xs)
  let ?r = "str_split c xs"
  from Cons obtain B0 where B0: "xs = hd ?r @ B0" by blast
  have tl: "\<And>pat. pat \<in> set (tl ?r) \<Longrightarrow> \<exists>A B. xs = A @ pat @ B \<and> A \<noteq> [] \<and> last A = c"
    using Cons by blast
  have ne: "?r \<noteq> []" by (rule str_split_nonempty)
  show ?case
  proof (cases "x = c")
    case True
    have "\<exists>A B. x # xs = A @ pat @ B \<and> A \<noteq> [] \<and> last A = c" if "pat \<in> set ?r" for pat
    proof (cases "pat = hd ?r")
      case True
      with B0 \<open>x = c\<close> show ?thesis by (intro exI[of _ "[x]"] exI[of _ B0]) simp
    next
      case False
      with that ne have "pat \<in> set (tl ?r)" by (cases ?r) auto
      from tl[OF this] obtain A B where "xs = A @ pat @ B" "A \<noteq> []" "last A = c" by blast
      then show ?thesis by (intro exI[of _ "x # A"] exI[of _ B]) simp
    qed
    with True show ?thesis by (simp add: Let_def)
  next
    case False
    have "\<exists>A B. x # xs = A @ pat @ B \<and> A \<noteq> [] \<and> last A = c" if "pat \<in> set (tl ?r)" for pat
    proof -
      from tl[OF that] obtain A B where "xs = A @ pat @ B" "A \<noteq> []" "last A = c" by blast
      then show ?thesis by (intro exI[of _ "x # A"] exI[of _ B]) simp
    qed
    moreover have "\<exists>B. x # xs = (x # hd ?r) @ B" using B0 by auto
    ultimately show ?thesis using False by (simp add: Let_def)
  qed
qed

lemma str_split_piece:
  assumes "pat \<in> set (str_split c t)"
  shows "\<exists>A B. t = A @ pat @ B \<and> (A = [] \<or> last A = c)"
proof (cases "pat = hd (str_split c t)")
  case True
  with str_split_pieces[of t c] obtain B where "t = pat @ B" by auto
  then show ?thesis by (intro exI[of _ "[]"] exI[of _ B]) simp
next
  case False
  with assms str_split_nonempty[of c t] have "pat \<in> set (tl (str_split c t))"
    by (cases "str_split c t") auto
  with str_split_pieces[of t c] show ?thesis by blast
qed

lemma strip_decomp:
  "\<exists>L R. s = L @ strip cs s @ R \<and> set L \<subseteq> set cs \<and> set R \<subseteq> set cs
         \<and> L = takeWhile (\<lambda>c. c \<in> set cs) s
         \<and> R = rev (takeWhile (\<lambda>c. c \<in> set cs) (rev (dropWhile (\<lambda>c. c \<in> set cs) s)))"
proof -
  let ?P = "\<lambda>c. c \<in> set cs"
  let ?D = "dropWhile ?P s"
  have 1: "s = takeWhile ?P s @ ?D" by simp
  have 2: "?D = strip cs s @ rev (takeWhile ?P (rev ?D))"
    unfolding strip_def by (metis rev_append rev_rev_ident takeWhile_dropWhile_id)
  have 3: "set (takeWhile ?P s) \<subseteq> set cs" by (auto dest: set_takeWhileD)
  have 4: "set (rev (takeWhile ?P (rev ?D))) \<subseteq> set cs" by (auto dest: set_takeWhileD)
  from 1 2 have "s = takeWhile ?P s @ strip cs s @ rev (takeWhile ?P (rev ?D))" by simp
  with 3 4 show ?thesis by blast
qed

lemma comma_piece_cut:
  assumes bg: "brace_group sub"
    and pat: "pat \<in> set (str_split comma (strip [lbrace, rbrace] sub))"
  shows "\<exists>A B. sub = A @ pat @ B \<and> A \<noteq> [] \<and> last A \<noteq> bslash \<and> (B = [] \<or> last B \<noteq> bslash)"
proof -
  let ?P = "\<lambda>c. c \<in> set [lbrace, rbrace]"
  let ?D = "dropWhile ?P sub"
  from bg obtain mid y where sub: "sub = lbrace # mid @ [y, rbrace]"
    unfolding brace_group_def by blast
  from strip_decomp[of sub "[lbrace, rbrace]"] obtain L R where
    d: "sub = L @ strip [lbrace, rbrace] sub @ R" and L: "set L \<subseteq> set [lbrace, rbrace]"
    and R: "set R \<subseteq> set [lbrace, rbrace]" and Ldef: "L = takeWhile ?P sub"
    and Rdef: "R = rev (takeWhile ?P (rev ?D))" by blast
  from sub Ldef have Lne: "L \<noteq> []" by simp
  from str_split_piece[OF pat] obtain A' B' where
    t: "strip [lbrace, rbrace] sub = A' @ pat @ B'" and A': "A' = [] \<or> last A' = comma" by blast
  have "last L \<in> set [lbrace, rbrace]"
    using L last_in_set[OF Lne] by blast
  then have lastL: "last L \<noteq> bslash" by auto
  have A: "L @ A' \<noteq> [] \<and> last (L @ A') \<noteq> bslash"
    using Lne lastL A' by (auto simp: last_append)
  have B: "B' @ R = [] \<or> last (B' @ R) \<noteq> bslash"
  proof (cases "R = []")
    case False
    with R last_in_set[OF False] have "last R \<in> set [lbrace, rbrace]" by blast
    with False show ?thesis by auto
  next
    case True
    have "?D = []"
    proof (rule ccontr)
      assume ne: "?D \<noteq> []"
      have "sub = takeWhile ?P sub @ ?D" by simp
      then have "last sub = last ?D" using ne by (metis last_appendR)
      with sub have "last ?D = rbrace" by simp
      with ne have "hd (rev ?D) = rbrace" by (simp add: hd_rev)
      with ne have "takeWhile ?P (rev ?D) \<noteq> []" by (cases "rev ?D") auto
      with True Rdef show False by simp
    qed
    then have "strip [lbrace, rbrace] sub = []"
      by (simp only: strip_def rev.simps dropWhile.simps)
    with t True show ?thesis by simp
  qed
  from d t have "sub = (L @ A') @ pat @ (B' @ R)" by simp
  with A B show ?thesis by blast
qed

lemma closers_delete:
  assumes "X \<noteq> []" "last X \<noteq> bslash"
  shows "closers (Y1 @ Y2) \<le> closers (Y1 @ X @ Y2)"
  unfolding closers_def using assms by (rule closers_after_delete)

text \<open>The branch with a comma: the string gets shorter, and no new closer appears.\<close>

lemma comma_branch_decreases:
  assumes bg: "brace_group sub"
    and pat: "pat \<in> set (str_split comma (strip [lbrace, rbrace] sub))"
  shows "length (pre @ pat @ post) < length (pre @ sub @ post)
         \<and> closers (pre @ pat @ post) \<le> closers (pre @ sub @ post)"
proof -
  from comma_piece_cut[OF bg pat] obtain A B where
    sub: "sub = A @ pat @ B" and A: "A \<noteq> []" "last A \<noteq> bslash"
    and B: "B = [] \<or> last B \<noteq> bslash" by blast
  have len: "length (pre @ pat @ post) < length (pre @ sub @ post)"
    using sub A by simp
  have 1: "closers (pre @ pat @ post) \<le> closers (pre @ A @ pat @ post)"
    using closers_delete[OF A, of pre "pat @ post"] by simp
  have 2: "closers ((pre @ A @ pat) @ post) \<le> closers ((pre @ A @ pat) @ B @ post)"
  proof (cases "B = []")
    case True
    then show ?thesis by simp
  next
    case False
    with B have "last B \<noteq> bslash" by simp
    from closers_delete[OF False this] show ?thesis .
  qed
  from 1 2 have "closers (pre @ pat @ post) \<le> closers (pre @ sub @ post)"
    using sub by simp
  with len show ?thesis ..
qed

text \<open>The branch without a comma: escaping removes at least one closer.\<close>

lemma escape_branch_decreases:
  assumes bg: "brace_group sub"
  shows "closers (pre @ escape_rbrace sub @ post) < closers (pre @ sub @ post)"
proof -
  from bg obtain mid y where sub: "sub = (lbrace # mid) @ [y, rbrace]" and y: "y \<noteq> bslash"
    unfolding brace_group_def by auto
  let ?q = "last (bslash # pre)"
  have l1: "last (?q # sub) = rbrace" using sub by simp
  have "escape_rbrace sub = escape_rbrace (lbrace # mid @ [y]) @ [bslash, rbrace]"
    using sub by (simp add: escape_rbrace_def)
  then have l2: "last (?q # escape_rbrace sub) = rbrace" by simp
  have "closers_after ?q sub = closers_after ?q (lbrace # mid) + closers_after (last (?q # lbrace # mid)) [y, rbrace]"
    unfolding sub by (rule closers_after_append)
  with y have pos: "0 < closers_after ?q sub" by simp
  have "closers (pre @ escape_rbrace sub @ post) = closers_after bslash pre + closers_after rbrace post"
    unfolding closers_def by (simp only: closers_after_append closers_after_escape l2 add_0_right)
  moreover have "closers (pre @ sub @ post) = closers_after bslash pre + closers_after ?q sub + closers_after rbrace post"
    unfolding closers_def by (simp only: closers_after_append l1 add.assoc)
  ultimately show ?thesis using pos by simp
qed

lemma descent_comma:
  assumes rs: "re_search s = Some (j, n)"
    and pat: "pat \<in> set (str_split comma (strip [lbrace, rbrace] (take n (drop j s))))"
  shows "length (slice_to s (str_find s (take n (drop j s))) @ pat @
                 slice_from s (str_find s (take n (drop j s)) + int (length (take n (drop j s))) - 1 + 1))
           < length s
       \<and> closers (slice_to s (str_find s (take n (drop j s))) @ pat @
                 slice_from s (str_find s (take n (drop j s)) + int (length (take n (drop j s))) - 1 + 1))
           \<le> closers s"
proof -
  from search_cut[OF rs] obtain pre post where
    s: "s = pre @ take n (drop j s) @ post"
    and pre: "slice_to s (str_find s (take n (drop j s))) = pre"
    and post: "slice_from s (str_find s (take n (drop j s)) + int (length (take n (drop j s))) - 1 + 1) = post"
    and bg: "brace_group (take n (drop j s))"
    by blast
  from comma_branch_decreases[OF bg pat, of pre post] s
  show ?thesis unfolding pre post by simp
qed

lemma descent_escape:
  assumes rs: "re_search s = Some (j, n)"
  shows "closers (slice_to s (str_find s (take n (drop j s))) @ escape_rbrace (take n (drop j s)) @
                 slice_from s (str_find s (take n (drop j s)) + int (length (take n (drop j s))) - 1 + 1))
           < closers s"
proof -
  from search_cut[OF rs] obtain pre post where
    s: "s = pre @ take n (drop j s) @ post"
    and pre: "slice_to s (str_find s (take n (drop j s))) = pre"
    and post: "slice_from s (str_find s (take n (drop j s)) + int (length (take n (drop j s))) - 1 + 1) = post"
    and bg: "brace_group (take n (drop j s))"
    by blast
  from escape_branch_decreases[OF bg, of pre post] s
  show ?thesis unfolding pre post by simp
qed

section \<open>Brace expansion\<close>

text \<open>
  \<open>expand_braces(orig)\<close>. The parameter \<open>list_set\<close> stands for \<open>list(set(res))\<close>, which
  lists the elements of \<open>res\<close> once each, in an order that Python leaves open. After a
  match, \<open>sub\<close> is group 1, and the string is cut at the first place where \<open>sub\<close> occurs
  (\<open>s.find(sub)\<close>), which need not be the place of the match. A group with a comma is
  replaced by each of its alternatives in turn. A group without a comma gets a backslash
  before each of its closing braces, so that the next search passes over it. Without a
  match the backslashes are taken out again and the string is the only result.
\<close>

function (domintros) expand_braces :: "(string list \<Rightarrow> string list) \<Rightarrow> string \<Rightarrow> string list" where
  "expand_braces list_set s =
     (case re_search s of
        Some (j, n) \<Rightarrow>
          (let sub = take n (drop j s);
               open_brace = str_find s sub;
               close_brace = open_brace + int (length sub) - 1
           in if str_find sub [comma] \<noteq> - 1
              then list_set (concat (map
                     (\<lambda>pat. expand_braces list_set
                        (slice_to s open_brace @ pat @ slice_from s (close_brace + 1)))
                     (str_split comma (strip [lbrace, rbrace] sub))))
              else list_set (expand_braces list_set
                     (slice_to s open_brace @ escape_rbrace sub @ slice_from s (close_brace + 1))))
      | None \<Rightarrow> list_set [unescape_rbrace s])"
  by pat_completeness auto
termination
proof (relation "measures [\<lambda>(f, s). closers s, \<lambda>(f, s). length s]", goal_cases)
  case 1
  show ?case by simp
next
  case (2 f s x2 j n sub open_brace close_brace pat)
  from 2(1,2) have rs: "re_search s = Some (j, n)" by simp
  have "length (slice_to s open_brace @ pat @ slice_from s (close_brace + 1)) < length s
      \<and> closers (slice_to s open_brace @ pat @ slice_from s (close_brace + 1)) \<le> closers s"
    using descent_comma[OF rs] 2(7) unfolding 2(3,4,5) by blast
  then show ?case by auto
next
  case (3 f s x2 j n sub open_brace close_brace)
  from 3(1,2) have rs: "re_search s = Some (j, n)" by simp
  have "closers (slice_to s open_brace @ escape_rbrace sub @ slice_from s (close_brace + 1))
          < closers s"
    using descent_escape[OF rs] unfolding 3(3,4,5) by blast
  then show ?case by simp
qed

declare expand_braces.simps [simp del]

section \<open>Column selection\<close>

text \<open>
  Python exceptions are values: the exception class with its message. Every \<open>raise\<close> of
  \<open>root.py\<close> is a \<open>ValueError\<close> or an \<open>ImportError\<close>; \<open>LibraryError\<close> stands for an
  exception raised inside root_numpy or ROOT, which \<open>read_root\<close> lets through, and
  \<open>OverflowError\<close> is what the interpreter raises when an integer is too large for a
  \<open>float\<close> (its message is the interpreter's).
\<close>

datatype exn = ImportError string | ValueError string | LibraryError | OverflowError

abbreviation apostrophe :: char where "apostrophe \<equiv> CHR 0x27"

text \<open>\<open>"Pattern '{}' didn't match any branch".format(p)\<close>\<close>

definition pattern_message :: "string \<Rightarrow> string" where
  "pattern_message p =
     ''Pattern '' @ [apostrophe] @ p @ [apostrophe] @ '' didn'' @ [apostrophe] @ ''t match any branch''"

text \<open>
  \<open>get_matching_variables(branches, patterns, fail=True)\<close>. The matcher \<open>fnmatch\<close> comes
  from Python's standard library, so it is a parameter here. \<open>branch_loop\<close> is the inner
  loop over the branches, with the variables \<open>found\<close> and \<open>selected\<close> as its state;
  \<open>pattern_loop\<close> is the outer loop over the patterns, which stops at the first \<open>raise\<close>.
\<close>

fun branch_loop ::
  "(string \<Rightarrow> string \<Rightarrow> bool) \<Rightarrow> string \<Rightarrow> string list \<Rightarrow> bool \<times> string list \<Rightarrow> bool \<times> string list"
where
  "branch_loop fnm p [] (found, selected) = (found, selected)"
| "branch_loop fnm p (b # bs) (found, selected) =
     branch_loop fnm p bs
       (if fnm b p then True else found,
        if fnm b p \<and> b \<notin> set selected then selected @ [b] else selected)"

fun pattern_loop ::
  "(string \<Rightarrow> string \<Rightarrow> bool) \<Rightarrow> string list \<Rightarrow> bool \<Rightarrow> string list \<Rightarrow> string list
     \<Rightarrow> exn + string list"
where
  "pattern_loop fnm branches fail [] selected = Inr selected"
| "pattern_loop fnm branches fail (p # ps) selected =
     (case branch_loop fnm p branches (False, selected) of
        (found, selected') \<Rightarrow>
          if \<not> found \<and> fail then Inl (ValueError (pattern_message p))
          else pattern_loop fnm branches fail ps selected')"

definition get_matching_variables ::
  "(string \<Rightarrow> string \<Rightarrow> bool) \<Rightarrow> string list \<Rightarrow> string list \<Rightarrow> bool \<Rightarrow> exn + string list"
where
  "get_matching_variables fnm branches patterns fail = pattern_loop fnm branches fail patterns []"

section \<open>The ROOT file and the library that reads it\<close>

text \<open>
  A tree of a ROOT file: its branch names and its entries, each entry giving a value to
  every branch. A file is the list of its trees by key.
\<close>

record 'v ttree =
  branch_names :: "string list"
  entries :: "(string \<Rightarrow> 'v) list"

text \<open>
  What \<open>read_root\<close> gets from outside: whether root_numpy and ROOT can be imported, the
  files by path, the standard library's \<open>fnmatch\<close>, the order in which \<open>list(set(res))\<close>
  lists a set (Python leaves it open), and the meaning of a selection expression for an
  entry.
\<close>

record 'v root_env =
  importable :: bool
  files :: "string \<Rightarrow> (string \<times> 'v ttree) list"
  fnmatch :: "string \<Rightarrow> string \<Rightarrow> bool"
  list_set :: "string list \<Rightarrow> string list"
  selection :: "string \<Rightarrow> (string \<Rightarrow> 'v) \<Rightarrow> bool"

text \<open>A structured array: the field names and the records, each a list of named values.\<close>

record 'v recarray =
  names :: "string list"
  recs :: "(string \<times> 'v) list list"

text \<open>
  Modelled from the spec: root_numpy is not part of the repository. \<open>list_trees\<close> lists the
  tree keys of a file; \<open>root2array\<close> reads the entries of a row range (all of them without
  a range) that satisfy the selection expression, keeping the requested branches. The
  range \<open>start, stop\<close> counts the entries of the tree, selected or not, and a \<open>stop\<close> beyond
  the last entry reads up to the last entry.
\<close>

definition list_trees :: "'v root_env \<Rightarrow> string \<Rightarrow> string list" where
  "list_trees env path = map fst (files env path)"

definition root2array ::
  "'v root_env \<Rightarrow> 'v ttree \<Rightarrow> string list \<Rightarrow> string option \<Rightarrow> (int \<times> int) option \<Rightarrow> 'v recarray"
where
  "root2array env t branches wher rows =
     (let es = (case rows of
                  None \<Rightarrow> entries t
                | Some (start, stop) \<Rightarrow> take (nat (stop - start)) (drop (nat start) (entries t)));
          es' = (case wher of None \<Rightarrow> es | Some expr \<Rightarrow> filter (selection env expr) es)
      in \<lparr>names = branches, recs = map (\<lambda>e. map (\<lambda>b. (b, e b)) branches) es'\<rparr>)"

text \<open>
  A DataFrame, as far as \<open>read_root\<close> is concerned: the index column if one is designated
  (\<open>None\<close> is the default index of pandas, the positions of the rows), the column names
  and the rows.
\<close>

record 'v dataframe =
  df_index :: "'v option list option"
  df_columns :: "string list"
  df_rows :: "(string \<times> 'v) list list"

text \<open>
  \<open>convert_to_dataframe(array)\<close>: \<open>DataFrame.from_records(array, index='index')\<close> takes the
  field \<open>index\<close> out of the columns and makes it the index.
\<close>

definition convert_to_dataframe :: "'v recarray \<Rightarrow> 'v dataframe" where
  "convert_to_dataframe array =
     (if ''index'' \<in> set (names array)
      then \<lparr>df_index = Some (map (\<lambda>r. map_of r ''index'') (recs array)),
            df_columns = filter (\<lambda>n. n \<noteq> ''index'') (names array),
            df_rows = map (filter (\<lambda>(n, v). n \<noteq> ''index'')) (recs array)\<rparr>
      else \<lparr>df_index = None, df_columns = names array, df_rows = recs array\<rparr>)"

section \<open>\<open>read_root\<close>\<close>

text \<open>
  The arguments \<open>columns\<close> and \<open>ignore\<close>: \<open>None\<close>, one pattern, or a list of patterns. Python
  tests them for truth, so the empty string and the empty list count as absent.
\<close>

datatype pat_arg = NoArg | Str string | StrList "string list"

fun truthy :: "pat_arg \<Rightarrow> bool" where
  "truthy NoArg = False"
| "truthy (Str s) = (s \<noteq> [])"
| "truthy (StrList ps) = (ps \<noteq> [])"

text \<open>\<open>if isinstance(columns, basestring): columns = [columns]\<close>\<close>

fun as_list :: "pat_arg \<Rightarrow> string list" where
  "as_list NoArg = []"
| "as_list (Str s) = [s]"
| "as_list (StrList ps) = ps"

text \<open>
  Lines 89 to 94: without a tree key (\<open>None\<close> or the empty string) the file must hold
  exactly one tree.
\<close>

definition resolve_tree_key :: "'v root_env \<Rightarrow> string \<Rightarrow> string option \<Rightarrow> exn + string" where
  "resolve_tree_key env path tree_key =
     (if tree_key = None \<or> tree_key = Some []
      then (case list_trees env path of
              [k] \<Rightarrow> Inr k
            | _ \<Rightarrow> Inl (ValueError (''More than one tree found in '' @ path)))
      else (case tree_key of Some k \<Rightarrow> Inr k | None \<Rightarrow> Inr []))"

text \<open>
  Lines 98 to 108: all branches unless \<open>columns\<close> is given; otherwise the pattern
  \<open>index\<close> is appended when the tree has such a branch, every pattern is brace-expanded,
  and the patterns are resolved with \<open>fail=True\<close>.
\<close>

definition select_columns :: "'v root_env \<Rightarrow> string list \<Rightarrow> pat_arg \<Rightarrow> exn + string list" where
  "select_columns env branches columns =
     (if \<not> truthy columns then Inr branches
      else let columns1 = as_list columns;
               columns2 = (if ''index'' \<in> set branches then columns1 @ [''index''] else columns1);
               columns3 = concat (map (expand_braces (list_set env)) columns2)
           in get_matching_variables (fnmatch env) branches columns3 True)"

text \<open>
  The loop \<open>for var in ignored: all_vars.remove(var)\<close>: \<open>list.remove\<close> deletes the first
  occurrence and raises \<open>ValueError\<close> when there is none.
\<close>

fun remove_vars :: "string list \<Rightarrow> string list \<Rightarrow> exn + string list" where
  "remove_vars [] all_vars = Inr all_vars"
| "remove_vars (var # vars) all_vars =
     (if var \<in> set all_vars then remove_vars vars (remove1 var all_vars)
      else Inl (ValueError ''list.remove(x): x not in list''))"

text \<open>
  Lines 110 to 118: the ignore patterns are resolved with \<open>fail=False\<close>, the resulting
  column names are brace-expanded, and each of them is removed from \<open>all_vars\<close>. (Without
  \<open>columns\<close>, \<open>all_vars\<close> is the list \<open>branches\<close> itself; \<open>ignored\<close> is computed before the
  first removal and \<open>branches\<close> is not read afterwards, so the sharing is not observable.)
\<close>

definition apply_ignore ::
  "'v root_env \<Rightarrow> string list \<Rightarrow> pat_arg \<Rightarrow> string list \<Rightarrow> exn + string list"
where
  "apply_ignore env branches ignore all_vars =
     (if \<not> truthy ignore then Inr all_vars
      else (case get_matching_variables (fnmatch env) branches (as_list ignore) False of
              Inl e \<Rightarrow> Inl e
            | Inr ignored \<Rightarrow>
                let ignored' = concat (map (expand_braces (list_set env)) ignored)
                in if ''index'' \<in> set ignored'
                   then Inl (ValueError ''index variable is being ignored!'')
                   else remove_vars ignored' all_vars))"

text \<open>
  \<open>int(ceil(float(n_entries) / chunksize))\<close> is computed in double precision, and the
  model follows it on exact integers. A double is a mantissa \<open>m\<close> of at most 53 bits (or
  \<open>2^53\<close>, when rounding carries into the next power of two) and the exponent \<open>q\<close> of its
  last place, with the value \<open>m * 2^q\<close>; the last place is never
  below \<open>2^-1074\<close>, a conversion that reaches \<open>2^1024\<close> raises \<open>OverflowError\<close>, and every
  operation rounds to the nearest double, a tie to the even mantissa.
\<close>

text \<open>\<open>n.bit_length()\<close>: the number of binary digits of a positive \<open>n\<close>.\<close>

function bit_length :: "int \<Rightarrow> nat" where
  "bit_length n = (if n \<le> 0 then 0 else Suc (bit_length (n div 2)))"
  by pat_completeness auto
termination
  by (relation "measure nat") auto

declare bit_length.simps [simp del]

text \<open>The quotient \<open>x / y\<close>, \<open>y\<close> positive, rounded to the nearest integer, a tie to the even one.\<close>

definition round_half_even :: "int \<Rightarrow> int \<Rightarrow> int" where
  "round_half_even x y =
     (let d = x div y; r = x mod y
      in if 2 * r < y then d else if y < 2 * r then d + 1 else if even d then d else d + 1)"

text \<open>The integer \<open>k\<close> with \<open>2^k \<le> a / b < 2^(k + 1)\<close>, for positive \<open>a\<close> and \<open>b\<close>.\<close>

definition log2_floor :: "int \<Rightarrow> int \<Rightarrow> int" where
  "log2_floor a b =
     (let k0 = int (bit_length a) - int (bit_length b)
      in if b * 2 ^ bit_length a \<le> a * 2 ^ bit_length b then k0 else k0 - 1)"

text \<open>
  The double nearest to \<open>a / b\<close>, for positive integers \<open>a\<close> and \<open>b\<close>: its mantissa and the
  exponent of its last place.
\<close>

definition nearest_double :: "int \<Rightarrow> int \<Rightarrow> int \<times> int" where
  "nearest_double a b =
     (let q = max (log2_floor a b - 52) (- 1074)
      in (if 0 \<le> q then round_half_even a (b * 2 ^ nat q)
          else round_half_even (a * 2 ^ nat (- q)) b, q))"

text \<open>
  \<open>float(n)\<close> for an integer \<open>n\<close>, and the conversion of an integer operand of a float
  division. The double has an integer value, which is the result here.
\<close>

definition py_float :: "int \<Rightarrow> exn + int" where
  "py_float n =
     (if n = 0 then Inr 0
      else (case nearest_double \<bar>n\<bar> 1 of
              (m, q) \<Rightarrow>
                let v = (if 0 \<le> q then m * 2 ^ nat q else m div 2 ^ nat (- q))
                in if 2 ^ 1024 \<le> v then Inl OverflowError else Inr (sgn n * v)))"

text \<open>
  \<open>ceil(a / b)\<close> for two doubles with the integer values \<open>a\<close> and \<open>b\<close>, \<open>b\<close> not zero. The
  quotient is not larger than \<open>a\<close> in absolute value, so the division does not overflow;
  the ceiling of a double and its conversion to an integer are exact.
\<close>

definition float_div_ceil :: "int \<Rightarrow> int \<Rightarrow> int" where
  "float_div_ceil a b =
     (if a = 0 then 0
      else (case nearest_double \<bar>a\<bar> \<bar>b\<bar> of
              (m, q) \<Rightarrow>
                let s = sgn a * sgn b
                in if 0 \<le> q then s * m * 2 ^ nat q else - ((- (s * m)) div 2 ^ nat (- q))))"

text \<open>
  \<open>int(ceil(float(n_entries) / chunksize))\<close> of line 125. \<open>chunksize\<close> is not zero there,
  since the generator is made only for a \<open>chunksize\<close> that is true.
\<close>

definition chunk_count :: "int \<Rightarrow> int \<Rightarrow> exn + int" where
  "chunk_count n_entries chunksize =
     (case py_float n_entries of
        Inl e \<Rightarrow> Inl e
      | Inr a \<Rightarrow> (case py_float chunksize of Inl e \<Rightarrow> Inl e | Inr b \<Rightarrow> Inr (float_div_ceil a b)))"

text \<open>
  The generator \<open>genchunks\<close>, as the list of the tables it yields. Its body runs when the
  first table is asked for, so an exception of line 125 is raised there, before any table
  is yielded: the generator is then that exception. A count below one gives an empty
  \<open>range\<close>; \<open>range\<close> is the sequence of its numbers, whatever memory an interpreter needs
  to hold it.
\<close>

definition genchunks ::
  "'v root_env \<Rightarrow> 'v ttree \<Rightarrow> string list \<Rightarrow> string option \<Rightarrow> int \<Rightarrow> int
     \<Rightarrow> exn + 'v dataframe list"
where
  "genchunks env t all_vars wher n_entries chunksize =
     (case chunk_count n_entries chunksize of
        Inl e \<Rightarrow> Inl e
      | Inr n \<Rightarrow>
          Inr (map (\<lambda>chunk. convert_to_dataframe
                      (root2array env t all_vars wher (Some (chunk * chunksize, (chunk + 1) * chunksize))))
                   (map int [0 ..< nat n])))"

text \<open>
  What \<open>read_root\<close> returns: a table, or a generator, which is the list of its tables or
  the exception that its first step raises.
\<close>

datatype 'v loaded = Table "'v dataframe" | Chunks "exn + 'v dataframe list"

text \<open>
  The columns that a call reads: everything \<open>read_root\<close> does up to line 118. The result
  is the tree that the call addresses and the list \<open>all_vars\<close>. \<open>list_branches\<close>,
  \<open>GetEntries\<close> and \<open>root2array\<close> all address the tree \<open>tree_key\<close> of the file \<open>path\<close>; the
  model looks it up once, and a missing tree is the library's error.
\<close>

definition read_selection ::
  "'v root_env \<Rightarrow> string \<Rightarrow> string option \<Rightarrow> pat_arg \<Rightarrow> pat_arg \<Rightarrow> exn + ('v ttree \<times> string list)"
where
  "read_selection env path tree_key columns ignore =
     (if \<not> importable env
      then Inl (ImportError ''You need the root_numpy package for ROOT integration'')
      else (case resolve_tree_key env path tree_key of
              Inl e \<Rightarrow> Inl e
            | Inr key \<Rightarrow>
                (case map_of (files env path) key of
                   None \<Rightarrow> Inl LibraryError
                 | Some t \<Rightarrow>
                     let branches = branch_names t in
                     (case select_columns env branches columns of
                        Inl e \<Rightarrow> Inl e
                      | Inr all_vars \<Rightarrow>
                          (case apply_ignore env branches ignore all_vars of
                             Inl e \<Rightarrow> Inl e
                           | Inr all_vars' \<Rightarrow> Inr (t, all_vars'))))))"

text \<open>
  \<open>read_root(path, tree_key, columns, ignore, chunksize, where)\<close>. A \<open>chunksize\<close> of \<open>None\<close>
  or \<open>0\<close> is false in Python and gives the single read.
\<close>

definition read_root ::
  "'v root_env \<Rightarrow> string \<Rightarrow> string option \<Rightarrow> pat_arg \<Rightarrow> pat_arg \<Rightarrow> int option \<Rightarrow> string option
     \<Rightarrow> exn + 'v loaded"
where
  "read_root env path tree_key columns ignore chunksize wher =
     (case read_selection env path tree_key columns ignore of
        Inl e \<Rightarrow> Inl e
      | Inr (t, all_vars) \<Rightarrow>
          (case chunksize of
             Some c \<Rightarrow>
               if c \<noteq> 0
               then Inr (Chunks (genchunks env t all_vars wher (int (length (entries t))) c))
               else Inr (Table (convert_to_dataframe (root2array env t all_vars wher None)))
           | None \<Rightarrow> Inr (Table (convert_to_dataframe (root2array env t all_vars wher None)))))"

section \<open>Shell patterns\<close>

text \<open>
  Modelled from the spec: \<open>fnmatch\<close> belongs to Python's standard library, not to the
  repository. A pattern is read from left to right: \<open>*\<close> matches any run of characters,
  \<open>?\<close> one character, \<open>[...]\<close> one character of a class (\<open>[!...]\<close> one character outside
  it; a class lists characters and ranges \<open>a-z\<close>, and a \<open>]\<close> right after the opening
  bracket belongs to the class), a \<open>[\<close> that no \<open>]\<close> closes and every other character
  match themselves. The whole name must match, and case matters. The theorems about
  \<open>get_matching_variables\<close> and \<open>read_root\<close> hold for every matcher; this one is used
  where a claim names concrete patterns.
\<close>

datatype glob_item = AnyRun | AnyChar | Lit char | CharClass bool "(char \<times> char) list"

fun class_ranges :: "string \<Rightarrow> (char \<times> char) list" where
  "class_ranges (a # m # b # rest) =
     (if m = CHR ''-'' then (a, b) # class_ranges rest else (a, a) # class_ranges (m # b # rest))"
| "class_ranges (a # rest) = (a, a) # class_ranges rest"
| "class_ranges [] = []"

text \<open>
  The text after an opening bracket is cut at the closing bracket: the class and the rest
  of the pattern.
\<close>

definition class_split :: "string \<Rightarrow> (string \<times> string) option" where
  "class_split cs =
     (let k1 = (if take 1 cs = ''!'' then 1 else 0);
          k2 = (if take 1 (drop k1 cs) = '']'' then k1 + 1 else k1);
          j = k2 + length (takeWhile (\<lambda>c. c \<noteq> CHR '']'') (drop k2 cs))
      in if j \<ge> length cs then None else Some (take j cs, drop (Suc j) cs))"

definition class_item :: "string \<Rightarrow> glob_item" where
  "class_item stuff =
     (if take 1 stuff = ''!'' then CharClass True (class_ranges (drop 1 stuff))
      else CharClass False (class_ranges stuff))"

lemma class_split_shorter: "class_split cs = Some (stuff, rest) \<Longrightarrow> length rest \<le> length cs"
  by (auto simp: class_split_def Let_def split: if_splits)

function translate :: "string \<Rightarrow> glob_item list" where
  "translate [] = []"
| "translate (c # cs) =
     (if c = CHR ''*'' then AnyRun # translate cs
      else if c = CHR ''?'' then AnyChar # translate cs
      else if c = CHR ''[''
      then (case class_split cs of
              None \<Rightarrow> Lit c # translate cs
            | Some (stuff, rest) \<Rightarrow> class_item stuff # translate rest)
      else Lit c # translate cs)"
  by pat_completeness auto
termination
  by (relation "measure length") (auto dest: class_split_shorter)

definition in_class :: "(char \<times> char) list \<Rightarrow> char \<Rightarrow> bool" where
  "in_class rs c = list_ex (\<lambda>(a, b). (of_char a :: nat) \<le> of_char c \<and> (of_char c :: nat) \<le> of_char b) rs"

fun items_match :: "glob_item list \<Rightarrow> string \<Rightarrow> bool" where
  "items_match [] name = (name = [])"
| "items_match (AnyRun # ts) [] = items_match ts []"
| "items_match (AnyRun # ts) (c # name) = (items_match ts (c # name) \<or> items_match (AnyRun # ts) name)"
| "items_match (AnyChar # ts) [] = False"
| "items_match (AnyChar # ts) (c # name) = items_match ts name"
| "items_match (Lit a # ts) [] = False"
| "items_match (Lit a # ts) (c # name) = (a = c \<and> items_match ts name)"
| "items_match (CharClass neg rs # ts) [] = False"
| "items_match (CharClass neg rs # ts) (c # name) = ((in_class rs c \<noteq> neg) \<and> items_match ts name)"

definition glob_match :: "string \<Rightarrow> string \<Rightarrow> bool" where
  "glob_match name pat = items_match (translate pat) name"

section \<open>What the claims speak of\<close>

text \<open>
  The result of \<open>list(set(res))\<close> has the elements of \<open>res\<close>, each once, in an order that
  Python does not fix. That is all the theorems assume of \<open>list_set\<close>.
\<close>

definition list_set_ok :: "(string list \<Rightarrow> string list) \<Rightarrow> bool" where
  "list_set_ok f \<longleftrightarrow> (\<forall>xs. set (f xs) = set xs \<and> distinct (f xs))"

text \<open>A string contains a brace group when some part of it can be matched by group 1.\<close>

definition has_brace_group :: "string \<Rightarrow> bool" where
  "has_brace_group s \<longleftrightarrow> (\<exists>pre sub post. s = pre @ sub @ post \<and> brace_group sub)"

text \<open>
  The selection as the specification words it: the matches of the first pattern in the
  order of the available columns, then those of the second, and so on, where a column
  that is already there is not added again.
\<close>

fun first_occurrences :: "'a list \<Rightarrow> 'a list" where
  "first_occurrences [] = []"
| "first_occurrences (x # xs) = x # first_occurrences (filter (\<lambda>y. y \<noteq> x) xs)"

definition select_spec :: "(string \<Rightarrow> string \<Rightarrow> bool) \<Rightarrow> string list \<Rightarrow> string list \<Rightarrow> string list" where
  "select_spec fnm available patterns =
     first_occurrences (concat (map (\<lambda>p. filter (\<lambda>b. fnm b p) available) patterns))"

text \<open>
  Row-wise concatenation of two tables with the same columns. A designated index column
  is concatenated like any column; the default index is the row positions and stays the
  default. \<open>no_rows\<close> is a table with its rows taken away.
\<close>

definition append_rows :: "'v dataframe \<Rightarrow> 'v dataframe \<Rightarrow> 'v dataframe" where
  "append_rows a b =
     \<lparr>df_index = (case df_index a of
                    None \<Rightarrow> None
                  | Some i \<Rightarrow> (case df_index b of None \<Rightarrow> None | Some j \<Rightarrow> Some (i @ j))),
      df_columns = df_columns a,
      df_rows = df_rows a @ df_rows b\<rparr>"

definition no_rows :: "'v dataframe \<Rightarrow> 'v dataframe" where
  "no_rows d =
     \<lparr>df_index = (case df_index d of None \<Rightarrow> None | Some i \<Rightarrow> Some []),
      df_columns = df_columns d,
      df_rows = []\<rparr>"

text \<open>The table that \<open>read_root\<close> makes of a list of entries, for the columns \<open>vars\<close>.\<close>

definition table_of :: "string list \<Rightarrow> (string \<Rightarrow> 'v) list \<Rightarrow> 'v dataframe" where
  "table_of vars es =
     convert_to_dataframe \<lparr>names = vars, recs = map (\<lambda>e. map (\<lambda>b. (b, e b)) vars) es\<rparr>"

text \<open>The entries that pass the selection expression, if there is one.\<close>

definition selected_entries ::
  "'v root_env \<Rightarrow> string option \<Rightarrow> (string \<Rightarrow> 'v) list \<Rightarrow> (string \<Rightarrow> 'v) list"
where
  "selected_entries env wher es =
     (case wher of None \<Rightarrow> es | Some expr \<Rightarrow> filter (selection env expr) es)"

text \<open>
  The number of chunks as the specification words it: \<open>ceil(N / c)\<close>, the ceiling of the
  exact quotient of the integers. The code computes \<open>chunk_count\<close> instead; the two are
  compared below.
\<close>

definition exact_ceil :: "int \<Rightarrow> int \<Rightarrow> int" where
  "exact_ceil n c = - ((- n) div c)"

text \<open>The number of tables that a chunked read yields, when it yields tables.\<close>

fun tables_yielded :: "exn + 'v loaded \<Rightarrow> nat option" where
  "tables_yielded (Inr (Chunks (Inr chunks))) = Some (length chunks)"
| "tables_yielded _ = None"

text \<open>
  Concrete files for the examples: a tree of ten entries with the branches \<open>index\<close>, \<open>AB\<close>,
  \<open>AC\<close> and \<open>x\<close>, a tree of \<open>2^53 + 1\<close> entries, the first number of entries that is not a
  double, a tree of \<open>3 * 2^60 + 2^9\<close> entries, a double whose third is not one, a tree
  whose first branch name contains braces, and an environment
  whose file \<open>f.root\<close> holds the given trees, with the shell patterns above as \<open>fnmatch\<close>.
\<close>

definition example_tree :: "int ttree" where
  "example_tree =
     \<lparr>branch_names = [''index'', ''AB'', ''AC'', ''x''],
      entries = map (\<lambda>i b. if b = ''index'' then 100 + int i else int i) [0 ..< 10]\<rparr>"

definition big_tree :: "int ttree" where
  "big_tree = \<lparr>branch_names = [''x''], entries = replicate (2 ^ 53 + 1) (\<lambda>b. 0)\<rparr>"

definition wide_tree :: "int ttree" where
  "wide_tree = \<lparr>branch_names = [''x''], entries = replicate (3 * 2 ^ 60 + 2 ^ 9) (\<lambda>b. 0)\<rparr>"

definition brace_tree :: "int ttree" where
  "brace_tree =
     \<lparr>branch_names = [''x{a,b}'', ''xa'', ''xb''],
      entries = map (\<lambda>i b. int i) [0 ..< 2]\<rparr>"

definition example_env :: "(string \<times> int ttree) list \<Rightarrow> int root_env" where
  "example_env trees =
     \<lparr>importable = True,
      files = (\<lambda>path. if path = ''f.root'' then trees else []),
      fnmatch = glob_match,
      list_set = remdups,
      selection = (\<lambda>expr e. if expr = ''x > 4'' then e ''x'' > 4 else True)\<rparr>"

section \<open>Facts about brace expansion\<close>

lemma list_set_ok_remdups: "list_set_ok remdups"
  by (simp add: list_set_ok_def)

lemma list_set_single: "list_set_ok f \<Longrightarrow> f [x] = [x]"
proof -
  assume ok: "list_set_ok f"
  then have s: "set (f [x]) = {x}" and d: "distinct (f [x])" by (simp_all add: list_set_ok_def)
  from d have "length (f [x]) = card (set (f [x]))" by (simp add: distinct_card)
  with s have "length (f [x]) = 1" by simp
  then obtain y where "f [x] = [y]" by (cases "f [x]") auto
  with s show ?thesis by simp
qed

lemma group_tail_found:
  "mid \<noteq> [] \<Longrightarrow> newline \<notin> set mid \<Longrightarrow> y \<noteq> bslash \<Longrightarrow>
     lazy_tail (mid @ y # rbrace # post) \<noteq> None"
proof (induction mid)
  case Nil
  then show ?case by simp
next
  case (Cons c mid)
  show ?case
  proof (cases mid)
    case Nil
    with Cons.prems show ?thesis by simp
  next
    case (Cons d mid')
    with Cons.IH Cons.prems have "lazy_tail (mid @ y # rbrace # post) \<noteq> None" by simp
    moreover obtain e rest where "mid @ y # rbrace # post = d # e # rest"
      using Cons by (cases mid') auto
    ultimately show ?thesis using Cons.prems by auto
  qed
qed

lemma group_here_found: "brace_group sub \<Longrightarrow> group_here (sub @ post) \<noteq> None"
  using group_tail_found by (auto simp: brace_group_def group_here_def)

lemma match_here_found: "group_here t \<noteq> None \<Longrightarrow> match_here t \<noteq> None"
  by (cases t) (auto simp: group_here_def split: option.splits)

lemma re_search_found: "match_here t \<noteq> None \<Longrightarrow> re_search (pre @ t) \<noteq> None"
proof (induction pre)
  case Nil
  then show ?case
    by (cases t) (auto simp del: match_here.simps simp add: match_here.simps(1) split: option.splits)
next
  case (Cons c pre)
  then show ?case by (auto simp del: match_here.simps split: option.splits)
qed

lemma re_search_None_iff: "re_search s = None \<longleftrightarrow> \<not> has_brace_group s"
proof
  assume n: "re_search s = None"
  show "\<not> has_brace_group s"
  proof
    assume "has_brace_group s"
    then obtain pre sub post where "s = pre @ sub @ post" "brace_group sub"
      unfolding has_brace_group_def by blast
    then have "re_search s \<noteq> None"
      using re_search_found[of "sub @ post" pre] match_here_found[of "sub @ post"]
        group_here_found[of sub post] by simp
    with n show False by simp
  qed
next
  assume h: "\<not> has_brace_group s"
  show "re_search s = None"
  proof (rule ccontr)
    assume "re_search s \<noteq> None"
    then obtain j n where "re_search s = Some (j, n)" by auto
    from search_cut[OF this] have "has_brace_group s"
      unfolding has_brace_group_def by blast
    with h show False ..
  qed
qed

lemma expand_braces_distinct: "list_set_ok f \<Longrightarrow> distinct (expand_braces f s)"
  by (subst expand_braces.simps) (auto simp: list_set_ok_def Let_def split: option.splits)

lemma expand_braces_set:
  "list_set_ok f \<Longrightarrow> set (expand_braces f s) = set (expand_braces remdups s)"
proof (induction f s rule: expand_braces.induct)
  case (1 f s)
  from "1.prems" have setf: "\<And>xs. set (f xs) = set xs" by (simp add: list_set_ok_def)
  show ?case
  proof (cases "re_search s")
    case None
    then show ?thesis by (simp add: expand_braces.simps[of _ s] setf)
  next
    case (Some r)
    obtain j n where r: "r = (j, n)" by (cases r)
    let ?sub = "take n (drop j s)"
    let ?ob = "str_find s ?sub"
    let ?cb = "?ob + int (length ?sub) - 1"
    show ?thesis
    proof (cases "str_find ?sub [comma] \<noteq> - 1")
      case True
      have "set (expand_braces f (slice_to s ?ob @ pat @ slice_from s (?cb + 1)))
          = set (expand_braces remdups (slice_to s ?ob @ pat @ slice_from s (?cb + 1)))"
        if "pat \<in> set (str_split comma (strip [lbrace, rbrace] ?sub))" for pat
        using "1.IH"(1)[OF Some r[symmetric] refl refl refl True that "1.prems"] .
      then show ?thesis
        using Some r True by (simp add: expand_braces.simps[of _ s] setf Let_def)
    next
      case False
      have "set (expand_braces f (slice_to s ?ob @ escape_rbrace ?sub @ slice_from s (?cb + 1)))
          = set (expand_braces remdups (slice_to s ?ob @ escape_rbrace ?sub @ slice_from s (?cb + 1)))"
        using "1.IH"(2)[OF Some r[symmetric] refl refl refl False "1.prems"] .
      then show ?thesis
        using Some r False by (simp add: expand_braces.simps[of _ s] setf Let_def)
    qed
  qed
qed

lemma expand_AB_AC: "expand_braces remdups ''A{B,C}'' = [''AB'', ''AC'']"
  by code_simp

lemma expand_four: "expand_braces remdups ''{A,B}{C,D}'' = [''AC'', ''BC'', ''AD'', ''BD'']"
  by code_simp

lemma expand_braces_plain:
  assumes "re_search s = None" and "list_set_ok f"
  shows "expand_braces f s = [unescape_rbrace s]"
proof -
  from assms(1) have "expand_braces f s = f [unescape_rbrace s]"
    by (simp add: expand_braces.simps[of f s])
  with list_set_single[OF assms(2)] show ?thesis by simp
qed

section \<open>Claims about brace expansion\<close>

text \<open>
  Claim C7. Whatever order \<open>list(set(res))\<close> produces, the expansion of \<open>A{B,C}\<close> is a
  list without duplicates whose elements are exactly \<open>AB\<close> and \<open>AC\<close>, and the expansion
  of \<open>{A,B}{C,D}\<close> is a list without duplicates whose elements are exactly \<open>AC\<close>, \<open>AD\<close>,
  \<open>BC\<close> and \<open>BD\<close>.
\<close>

theorem expand_braces_examples:
  assumes "list_set_ok f"
  shows "set (expand_braces f ''A{B,C}'') = {''AB'', ''AC''}
       \<and> distinct (expand_braces f ''A{B,C}'')
       \<and> set (expand_braces f ''{A,B}{C,D}'') = {''AC'', ''AD'', ''BC'', ''BD''}
       \<and> distinct (expand_braces f ''{A,B}{C,D}'')"
proof -
  have 1: "set (expand_braces f ''A{B,C}'') = {''AB'', ''AC''}"
    by (simp only: expand_braces_set[OF assms] expand_AB_AC) simp
  have 2: "set (expand_braces f ''{A,B}{C,D}'') = {''AC'', ''AD'', ''BC'', ''BD''}"
    by (simp only: expand_braces_set[OF assms] expand_four) auto
  from 1 2 expand_braces_distinct[OF assms] show ?thesis by blast
qed

theorem expand_braces_examples_witness:
  "list_set_ok remdups
   \<and> set (expand_braces remdups ''A{B,C}'') = {''AB'', ''AC''}
   \<and> distinct (expand_braces remdups ''A{B,C}'')
   \<and> set (expand_braces remdups ''{A,B}{C,D}'') = {''AC'', ''AD'', ''BC'', ''BD''}
   \<and> distinct (expand_braces remdups ''{A,B}{C,D}'')"
  using expand_braces_examples[OF list_set_ok_remdups] list_set_ok_remdups by blast

text \<open>
  Claim C8. A string no part of which is a brace group (an opening brace, one or more
  characters other than a newline, a character other than a backslash, a closing brace:
  what the regular expression looks for) expands to exactly one string, the input with
  every backslash-brace pair replaced by a closing brace.
\<close>

theorem expand_braces_without_group:
  assumes "\<not> has_brace_group s" and "list_set_ok f"
  shows "expand_braces f s = [unescape_rbrace s]"
proof -
  from assms(1) have "re_search s = None" by (simp add: re_search_None_iff)
  then show ?thesis using assms(2) by (rule expand_braces_plain)
qed

theorem expand_braces_without_group_witness:
  "\<not> has_brace_group [CHR ''x'', bslash, rbrace, CHR ''y'']
   \<and> list_set_ok remdups
   \<and> expand_braces remdups [CHR ''x'', bslash, rbrace, CHR ''y''] = [''x}y'']"
proof -
  have h: "\<not> has_brace_group [CHR ''x'', bslash, rbrace, CHR ''y'']"
    by (simp add: re_search_None_iff[symmetric] group_here_def)
  from expand_braces_without_group[OF h list_set_ok_remdups] h list_set_ok_remdups
  show ?thesis by simp
qed

text \<open>
  Claim C9. The recursion of \<open>expand_braces\<close> ends on every string: every input is in the
  domain on which the recursive definition is well founded. The reason is the one the
  claim gives. When the group found has a comma, each recursive call gets a shorter string
  with no more closing braces that can end a group (closing braces not preceded by a
  backslash); when it has no comma, the recursive call gets a string with fewer of them.
\<close>

theorem expand_braces_terminates:
  "expand_braces_dom (f, s)
   \<and> (\<forall>j n. re_search s = Some (j, n) \<longrightarrow>
        (let sub = take n (drop j s);
             open_brace = str_find s sub;
             close_brace = open_brace + int (length sub) - 1
         in (str_find sub [comma] \<noteq> - 1 \<longrightarrow>
               (\<forall>pat \<in> set (str_split comma (strip [lbrace, rbrace] sub)).
                  length (slice_to s open_brace @ pat @ slice_from s (close_brace + 1)) < length s
                  \<and> closers (slice_to s open_brace @ pat @ slice_from s (close_brace + 1))
                      \<le> closers s))
          \<and> (str_find sub [comma] = - 1 \<longrightarrow>
               closers (slice_to s open_brace @ escape_rbrace sub @ slice_from s (close_brace + 1))
                 < closers s)))"
proof
  have "wf (measures [closers, length])" by simp
  then show "expand_braces_dom (f, s)"
  proof (induction s rule: wf_induct_rule)
    case (less s)
    show ?case
    proof (rule expand_braces.domintros, goal_cases)
      case (1 j n pat)
      from descent_comma[OF 1(1) 1(3)]
      have "(slice_to s (str_find s (take n (drop j s))) @ pat @
             slice_from s (str_find s (take n (drop j s)) + int (min (length s - j) n)), s)
          \<in> measures [closers, length]" by auto
      then show ?case by (rule less.IH)
    next
      case (2 j n)
      from descent_escape[OF 2(1)]
      have "(slice_to s (str_find s (take n (drop j s))) @ escape_rbrace (take n (drop j s)) @
             slice_from s (str_find s (take n (drop j s)) + int (min (length s - j) n)), s)
          \<in> measures [closers, length]" by simp
      then show ?case by (rule less.IH)
    qed
  qed
next
  show "\<forall>j n. re_search s = Some (j, n) \<longrightarrow>
        (let sub = take n (drop j s);
             open_brace = str_find s sub;
             close_brace = open_brace + int (length sub) - 1
         in (str_find sub [comma] \<noteq> - 1 \<longrightarrow>
               (\<forall>pat \<in> set (str_split comma (strip [lbrace, rbrace] sub)).
                  length (slice_to s open_brace @ pat @ slice_from s (close_brace + 1)) < length s
                  \<and> closers (slice_to s open_brace @ pat @ slice_from s (close_brace + 1))
                      \<le> closers s))
          \<and> (str_find sub [comma] = - 1 \<longrightarrow>
               closers (slice_to s open_brace @ escape_rbrace sub @ slice_from s (close_brace + 1))
                 < closers s))"
    unfolding Let_def using descent_comma descent_escape by blast
qed

theorem expand_braces_terminates_witness:
  "re_search ''A{B,C}'' = Some (1, 5)
   \<and> str_find ''{B,C}'' [comma] \<noteq> - 1
   \<and> str_split comma (strip [lbrace, rbrace] ''{B,C}'') = [''B'', ''C'']
   \<and> expand_braces_dom (remdups, ''A{B,C}'')
   \<and> length ''AB'' < length ''A{B,C}'' \<and> closers ''AB'' \<le> closers ''A{B,C}''
   \<and> length ''AC'' < length ''A{B,C}'' \<and> closers ''AC'' \<le> closers ''A{B,C}''
   \<and> re_search ''{ab}'' = Some (0, 4)
   \<and> str_find ''{ab}'' [comma] = - 1
   \<and> expand_braces_dom (remdups, ''{ab}'')
   \<and> closers (escape_rbrace ''{ab}'') < closers ''{ab}''"
proof -
  have a: "re_search ''A{B,C}'' = Some (1, 5)" by (simp add: group_here_def)
  have b: "re_search ''{ab}'' = Some (0, 4)" by (simp add: group_here_def)
  have c: "str_find ''{B,C}'' [comma] \<noteq> - 1" by simp
  have d: "str_split comma (strip [lbrace, rbrace] ''{B,C}'') = [''B'', ''C'']"
    by (simp add: strip_def)
  have e: "str_find ''{ab}'' [comma] = - 1" by simp
  from expand_braces_terminates[of remdups "''A{B,C}''"] a
  have 1: "expand_braces_dom (remdups, ''A{B,C}'')"
    and "(let sub = take 5 (drop 1 ''A{B,C}'');
             open_brace = str_find ''A{B,C}'' sub;
             close_brace = open_brace + int (length sub) - 1
         in (str_find sub [comma] \<noteq> - 1 \<longrightarrow>
               (\<forall>pat \<in> set (str_split comma (strip [lbrace, rbrace] sub)).
                  length (slice_to ''A{B,C}'' open_brace @ pat @ slice_from ''A{B,C}'' (close_brace + 1)) < length ''A{B,C}''
                  \<and> closers (slice_to ''A{B,C}'' open_brace @ pat @ slice_from ''A{B,C}'' (close_brace + 1))
                      \<le> closers ''A{B,C}'')))"
    by (simp_all only: Let_def) blast+
  then have 2: "length ''AB'' < length ''A{B,C}'' \<and> closers ''AB'' \<le> closers ''A{B,C}''
      \<and> length ''AC'' < length ''A{B,C}'' \<and> closers ''AC'' \<le> closers ''A{B,C}''"
    by (simp add: Let_def strip_def slice_to_def slice_from_def)
  from expand_braces_terminates[of remdups "''{ab}''"] b
  have 3: "expand_braces_dom (remdups, ''{ab}'')"
    and "(let sub = take 4 (drop 0 ''{ab}'');
             open_brace = str_find ''{ab}'' sub;
             close_brace = open_brace + int (length sub) - 1
         in (str_find sub [comma] = - 1 \<longrightarrow>
               closers (slice_to ''{ab}'' open_brace @ escape_rbrace sub @ slice_from ''{ab}'' (close_brace + 1))
                 < closers ''{ab}''))"
    by (simp_all only: Let_def) blast+
  then have 4: "closers (escape_rbrace ''{ab}'') < closers ''{ab}''"
    by (simp add: Let_def slice_to_def slice_from_def)
  from a b c d e 1 2 3 4 show ?thesis by blast
qed

section \<open>Facts about the selector\<close>

lemma set_first_occurrences: "set (first_occurrences xs) = set xs"
  by (induction xs rule: first_occurrences.induct) auto

lemma distinct_first_occurrences: "distinct (first_occurrences xs)"
  by (induction xs rule: first_occurrences.induct) (auto simp: set_first_occurrences)

lemma first_occurrences_filter:
  "first_occurrences (filter P xs) = filter P (first_occurrences xs)"
proof (induction xs rule: first_occurrences.induct)
  case 1
  then show ?case by simp
next
  case (2 x xs)
  have "filter (\<lambda>y. y \<noteq> x) (filter P xs) = filter P (filter (\<lambda>y. y \<noteq> x) xs)"
    by (simp add: conj_commute)
  moreover have "\<not> P x \<Longrightarrow> filter P xs = filter P (filter (\<lambda>y. y \<noteq> x) xs)"
    by (auto intro: filter_cong)
  ultimately show ?case using 2 by auto
qed

lemma first_occurrences_append:
  "first_occurrences (xs @ ys) = first_occurrences xs @ first_occurrences (filter (\<lambda>y. y \<notin> set xs) ys)"
proof (induction xs arbitrary: ys rule: first_occurrences.induct)
  case 1
  then show ?case by simp
next
  case (2 x xs)
  have "filter (\<lambda>y. y \<notin> set (filter (\<lambda>y. y \<noteq> x) xs)) (filter (\<lambda>y. y \<noteq> x) ys)
      = filter (\<lambda>y. y \<notin> set (x # xs)) ys"
    by (auto intro: filter_cong)
  with 2[of "filter (\<lambda>y. y \<noteq> x) ys"] show ?case by simp
qed

lemma branch_loop_result:
  "branch_loop fnm p bs (found, selected) =
     (found \<or> (\<exists>b \<in> set bs. fnm b p),
      selected @ first_occurrences (filter (\<lambda>b. b \<notin> set selected) (filter (\<lambda>b. fnm b p) bs)))"
proof (induction bs arbitrary: found selected)
  case Nil
  then show ?case by simp
next
  case (Cons b bs)
  have "filter (\<lambda>x. x \<notin> set (selected @ [b])) ys
      = filter (\<lambda>y. y \<noteq> b) (filter (\<lambda>x. x \<notin> set selected) ys)" for ys
    by (auto intro: filter_cong)
  then show ?case
    by (auto simp: Cons.IH intro!: arg_cong[where f = first_occurrences] filter_cong)
qed

lemma pattern_loop_no_fail:
  "pattern_loop fnm branches False ps selected =
     Inr (selected @ first_occurrences (filter (\<lambda>b. b \<notin> set selected)
            (concat (map (\<lambda>p. filter (\<lambda>b. fnm b p) branches) ps))))"
proof (induction ps arbitrary: selected)
  case Nil
  then show ?case by simp
next
  case (Cons p ps)
  let ?M = "filter (\<lambda>b. b \<notin> set selected) (filter (\<lambda>b. fnm b p) branches)"
  let ?R = "concat (map (\<lambda>p. filter (\<lambda>b. fnm b p) branches) ps)"
  have "filter (\<lambda>b. b \<notin> set (selected @ first_occurrences ?M)) ?R
      = filter (\<lambda>y. y \<notin> set ?M) (filter (\<lambda>b. b \<notin> set selected) ?R)"
    by (auto simp: set_first_occurrences intro: filter_cong)
  then show ?case
    by (simp add: branch_loop_result Cons.IH first_occurrences_append)
qed

lemma pattern_loop_fail:
  "pattern_loop fnm branches True ps selected =
     (case List.find (\<lambda>p. \<forall>b \<in> set branches. \<not> fnm b p) ps of
        Some p \<Rightarrow> Inl (ValueError (pattern_message p))
      | None \<Rightarrow> pattern_loop fnm branches False ps selected)"
  by (induction ps arbitrary: selected) (auto simp: branch_loop_result split: option.splits)

lemma get_matching_variables_no_fail:
  "get_matching_variables fnm branches ps False = Inr (select_spec fnm branches ps)"
  by (simp add: get_matching_variables_def select_spec_def pattern_loop_no_fail)

lemma get_matching_variables_fail:
  "get_matching_variables fnm branches ps True =
     (case List.find (\<lambda>p. \<forall>b \<in> set branches. \<not> fnm b p) ps of
        Some p \<Rightarrow> Inl (ValueError (pattern_message p))
      | None \<Rightarrow> Inr (select_spec fnm branches ps))"
  by (simp add: get_matching_variables_def select_spec_def pattern_loop_fail pattern_loop_no_fail
      split: option.splits)

lemma set_select_spec:
  "set (select_spec fnm branches ps) = {b \<in> set branches. \<exists>p \<in> set ps. fnm b p}"
  by (auto simp: select_spec_def set_first_occurrences)

lemma select_spec_removeAll_unmatched:
  assumes "\<forall>b \<in> set branches. \<not> fnm b p"
  shows "select_spec fnm branches (filter (\<lambda>q. q \<noteq> p) ps) = select_spec fnm branches ps"
proof -
  have e: "filter (\<lambda>b. fnm b p) branches = []" using assms by (auto simp: filter_empty_conv)
  have "concat (map (\<lambda>p. filter (\<lambda>b. fnm b p) branches) (filter (\<lambda>q. q \<noteq> p) ps))
      = concat (map (\<lambda>p. filter (\<lambda>b. fnm b p) branches) ps)"
    by (induction ps) (auto simp: e)
  then show ?thesis by (simp add: select_spec_def)
qed

lemma select_spec_matched_only:
  "select_spec fnm branches (filter (\<lambda>q. \<exists>b \<in> set branches. fnm b q) ps) = select_spec fnm branches ps"
proof -
  have "concat (map (\<lambda>p. filter (\<lambda>b. fnm b p) branches) (filter (\<lambda>q. \<exists>b \<in> set branches. fnm b q) ps))
      = concat (map (\<lambda>p. filter (\<lambda>b. fnm b p) branches) ps)"
    by (induction ps) (auto simp: filter_empty_conv)
  then show ?thesis by (simp add: select_spec_def)
qed

lemma select_spec_twice: "select_spec fnm branches (ps @ ps) = select_spec fnm branches ps"
  by (simp add: select_spec_def first_occurrences_append)

lemma find_append_cases:
  "List.find P (ps @ qs) = (case List.find P ps of None \<Rightarrow> List.find P qs | Some x \<Rightarrow> Some x)"
  by (induction ps) auto

lemma find_twice: "List.find P (ps @ ps) = List.find P ps"
  by (simp add: find_append_cases split: option.splits)

lemma concat_matches_drop_pattern:
  "filter (\<lambda>b. b \<notin> set (M p)) (concat (map M (filter (\<lambda>q. q \<noteq> p) qs)))
   = filter (\<lambda>b. b \<notin> set (M p)) (concat (map M qs))"
  by (induction qs) (auto simp: filter_empty_conv)

lemma first_occurrences_patterns:
  "first_occurrences (concat (map M (first_occurrences ps))) = first_occurrences (concat (map M ps))"
proof (induction ps rule: first_occurrences.induct)
  case 1
  then show ?case by simp
next
  case (2 p ps)
  let ?Q = "\<lambda>b. b \<notin> set (M p)"
  let ?ps' = "filter (\<lambda>q. q \<noteq> p) ps"
  have "first_occurrences (concat (map M (first_occurrences (p # ps))))
      = first_occurrences (M p @ concat (map M (first_occurrences ?ps')))"
    by simp
  also have "\<dots> = first_occurrences (M p)
        @ first_occurrences (filter ?Q (concat (map M (first_occurrences ?ps'))))"
    by (rule first_occurrences_append)
  also have "first_occurrences (filter ?Q (concat (map M (first_occurrences ?ps'))))
      = filter ?Q (first_occurrences (concat (map M (first_occurrences ?ps'))))"
    by (rule first_occurrences_filter)
  also have "first_occurrences (concat (map M (first_occurrences ?ps')))
      = first_occurrences (concat (map M ?ps'))"
    by (rule 2)
  also have "filter ?Q (first_occurrences (concat (map M ?ps')))
      = first_occurrences (filter ?Q (concat (map M ?ps')))"
    by (rule first_occurrences_filter[symmetric])
  also have "filter ?Q (concat (map M ?ps')) = filter ?Q (concat (map M ps))"
    by (rule concat_matches_drop_pattern)
  also have "first_occurrences (M p) @ first_occurrences (filter ?Q (concat (map M ps)))
      = first_occurrences (M p @ concat (map M ps))"
    by (rule first_occurrences_append[symmetric])
  finally show ?case by simp
qed

lemma select_spec_first_occurrences:
  "select_spec fnm branches (first_occurrences ps) = select_spec fnm branches ps"
  unfolding select_spec_def by (rule first_occurrences_patterns)

lemma find_filter_other: "\<not> P p \<Longrightarrow> List.find P (filter (\<lambda>q. q \<noteq> p) ps) = List.find P ps"
  by (induction ps) auto

lemma find_first_occurrences: "List.find P (first_occurrences ps) = List.find P ps"
  by (induction ps rule: first_occurrences.induct) (auto simp: find_filter_other)

lemma get_matching_variables_first_occurrences:
  "get_matching_variables fnm branches (first_occurrences ps) fail
   = get_matching_variables fnm branches ps fail"
  by (cases fail)
     (simp_all add: get_matching_variables_fail get_matching_variables_no_fail
        select_spec_first_occurrences find_first_occurrences split: option.splits)

section \<open>Claims about the selector\<close>

text \<open>
  Claim C5. Without \<open>fail\<close> the selector returns the selection of the specification: the
  matches of each pattern in turn, in the order of the available columns, every column
  at its first occurrence only. With \<open>fail\<close> it returns the same list unless it raises.
  The list has no duplicates and holds exactly the available columns that match some
  pattern. Repeated patterns change nothing: the result for a pattern list is the result
  for the list without its repetitions, in particular for \<open>["A*", "A*"]\<close> and \<open>["A*"]\<close>;
  and the columns \<open>x, y, z\<close> with the patterns \<open>z, x\<close> give \<open>z, x\<close>.
\<close>

theorem selector_first_match_order:
  "get_matching_variables fnm available patterns False = Inr (select_spec fnm available patterns)
   \<and> (get_matching_variables fnm available patterns True = Inr selected
        \<longrightarrow> selected = select_spec fnm available patterns)
   \<and> distinct (select_spec fnm available patterns)
   \<and> set (select_spec fnm available patterns) = {b \<in> set available. \<exists>p \<in> set patterns. fnm b p}
   \<and> get_matching_variables fnm available (first_occurrences patterns) fail
       = get_matching_variables fnm available patterns fail
   \<and> get_matching_variables fnm available (patterns @ patterns) fail
       = get_matching_variables fnm available patterns fail
   \<and> get_matching_variables glob_match available [''A*'', ''A*''] fail
       = get_matching_variables glob_match available [''A*''] fail
   \<and> get_matching_variables glob_match [''x'', ''y'', ''z''] [''z'', ''x''] fail = Inr [''z'', ''x'']"
proof -
  have 1: "get_matching_variables fnm available patterns False = Inr (select_spec fnm available patterns)"
    by (rule get_matching_variables_no_fail)
  have 2: "get_matching_variables fnm available patterns True = Inr selected
        \<longrightarrow> selected = select_spec fnm available patterns"
    by (auto simp: get_matching_variables_fail split: option.splits)
  have 3: "distinct (select_spec fnm available patterns)"
    by (simp add: select_spec_def distinct_first_occurrences)
  have 4: "set (select_spec fnm available patterns) = {b \<in> set available. \<exists>p \<in> set patterns. fnm b p}"
    by (rule set_select_spec)
  have 5: "get_matching_variables fnm available (first_occurrences patterns) fail
       = get_matching_variables fnm available patterns fail"
    by (rule get_matching_variables_first_occurrences)
  have 6: "get_matching_variables f available (ps @ ps) fail
       = get_matching_variables f available ps fail" for f ps
    by (cases fail)
       (simp_all add: get_matching_variables_fail get_matching_variables_no_fail
          select_spec_twice find_twice split: option.splits)
  have 7: "get_matching_variables glob_match available [''A*'', ''A*''] fail
       = get_matching_variables glob_match available [''A*''] fail"
    using 6[of glob_match "[''A*'']"] by simp
  have 8: "get_matching_variables glob_match [''x'', ''y'', ''z''] [''z'', ''x''] fail = Inr [''z'', ''x'']"
    by (cases fail) (simp_all add: get_matching_variables_def glob_match_def)
  from 1 2 3 4 5 6 7 8 show ?thesis by blast
qed

theorem selector_first_match_order_witness:
  "get_matching_variables glob_match [''AB'', ''x'', ''AC'', ''AB''] [''x'', ''A*'', ''x''] True
     = Inr [''x'', ''AB'', ''AC'']
   \<and> select_spec glob_match [''AB'', ''x'', ''AC'', ''AB''] [''x'', ''A*'', ''x''] = [''x'', ''AB'', ''AC'']"
proof -
  have a: "get_matching_variables glob_match [''AB'', ''x'', ''AC'', ''AB''] [''x'', ''A*'', ''x''] True
     = Inr [''x'', ''AB'', ''AC'']"
    by (simp add: get_matching_variables_def glob_match_def)
  from selector_first_match_order[of glob_match "[''AB'', ''x'', ''AC'', ''AB'']"
      "[''x'', ''A*'', ''x'']" "[''x'', ''AB'', ''AC'']"] a
  show ?thesis by simp
qed

text \<open>
  Claim C6. When some pattern of the list matches no available column, the selector with
  \<open>fail\<close> raises the \<open>ValueError\<close> whose message names such a pattern, the first one of the
  list (so the given pattern itself when no other pattern fails before it): the message is
  \<open>Pattern '\<close>, the pattern, and \<open>' didn't match any branch\<close>. Without
  \<open>fail\<close> it raises nothing: it returns what the patterns that match something select,
  and leaving the pattern out of the list does not change the result.
\<close>

theorem selector_unmatched_pattern:
  assumes "p \<in> set patterns" and "\<forall>b \<in> set available. \<not> fnm b p"
  shows "(\<exists>q. List.find (\<lambda>q. \<forall>b \<in> set available. \<not> fnm b q) patterns = Some q
            \<and> q \<in> set patterns \<and> (\<forall>b \<in> set available. \<not> fnm b q)
            \<and> get_matching_variables fnm available patterns True = Inl (ValueError
               (''Pattern '' @ [apostrophe] @ q @ [apostrophe]
                @ '' didn'' @ [apostrophe] @ ''t match any branch'')))
    \<and> ((\<forall>q \<in> set (takeWhile (\<lambda>q. q \<noteq> p) patterns). \<exists>b \<in> set available. fnm b q)
           \<longrightarrow> get_matching_variables fnm available patterns True = Inl (ValueError
               (''Pattern '' @ [apostrophe] @ p @ [apostrophe]
                @ '' didn'' @ [apostrophe] @ ''t match any branch'')))
    \<and> get_matching_variables fnm available patterns False
           = Inr (select_spec fnm available (filter (\<lambda>q. \<exists>b \<in> set available. fnm b q) patterns))
    \<and> get_matching_variables fnm available patterns False
           = get_matching_variables fnm available (filter (\<lambda>q. q \<noteq> p) patterns) False"
proof -
  let ?P = "\<lambda>q. \<forall>b \<in> set available. \<not> fnm b q"
  from assms have "List.find ?P patterns \<noteq> None" by (auto simp: find_None_iff)
  then obtain q where q: "List.find ?P patterns = Some q" by auto
  then have "q \<in> set patterns" "?P q" by (auto simp: find_Some_iff)
  with q have 1: "\<exists>q. List.find ?P patterns = Some q \<and> q \<in> set patterns \<and> ?P q
            \<and> get_matching_variables fnm available patterns True = Inl (ValueError
               (''Pattern '' @ [apostrophe] @ q @ [apostrophe]
                @ '' didn'' @ [apostrophe] @ ''t match any branch''))"
    by (simp add: get_matching_variables_fail pattern_message_def)
  have 2: "(\<forall>q \<in> set (takeWhile (\<lambda>q. q \<noteq> p) patterns). \<exists>b \<in> set available. fnm b q)
           \<longrightarrow> get_matching_variables fnm available patterns True = Inl (ValueError
               (''Pattern '' @ [apostrophe] @ p @ [apostrophe]
                @ '' didn'' @ [apostrophe] @ ''t match any branch''))"
  proof
    assume before: "\<forall>q \<in> set (takeWhile (\<lambda>q. q \<noteq> p) patterns). \<exists>b \<in> set available. fnm b q"
    have "List.find ?P patterns = Some p" using assms before
    proof (induction patterns)
      case Nil
      then show ?case by simp
    next
      case (Cons a ps)
      then show ?case by (cases "a = p") auto
    qed
    then show "get_matching_variables fnm available patterns True = Inl (ValueError
               (''Pattern '' @ [apostrophe] @ p @ [apostrophe]
                @ '' didn'' @ [apostrophe] @ ''t match any branch''))"
      by (simp add: get_matching_variables_fail pattern_message_def)
  qed
  have 3: "get_matching_variables fnm available patterns False
           = Inr (select_spec fnm available (filter (\<lambda>q. \<exists>b \<in> set available. fnm b q) patterns))"
    by (simp add: get_matching_variables_no_fail select_spec_matched_only)
  have 4: "get_matching_variables fnm available patterns False
           = get_matching_variables fnm available (filter (\<lambda>q. q \<noteq> p) patterns) False"
    using select_spec_removeAll_unmatched[of available fnm p patterns] assms(2)
    by (simp add: get_matching_variables_no_fail)
  from 1 2 3 4 show ?thesis by blast
qed

theorem selector_unmatched_pattern_witness:
  "\<not> glob_match ''AB'' ''nomatch'' \<and> \<not> glob_match ''x'' ''nomatch''
   \<and> get_matching_variables glob_match [''AB'', ''x''] [''A*'', ''nomatch'', ''x''] True
       = Inl (ValueError
               (''Pattern '' @ [apostrophe] @ ''nomatch'' @ [apostrophe]
                @ '' didn'' @ [apostrophe] @ ''t match any branch''))
   \<and> get_matching_variables glob_match [''AB'', ''x''] [''A*'', ''nomatch'', ''x''] False
       = Inr [''AB'', ''x'']
   \<and> get_matching_variables glob_match [''AB'', ''x''] [''A*'', ''x''] False = Inr [''AB'', ''x'']"
proof -
  have h1: "''nomatch'' \<in> set [''A*'', ''nomatch'', ''x'']" by simp
  have h2: "\<forall>b \<in> set [''AB'', ''x'']. \<not> glob_match b ''nomatch''"
    by (simp add: glob_match_def)
  have h3: "\<forall>q \<in> set (takeWhile (\<lambda>q. q \<noteq> ''nomatch'') [''A*'', ''nomatch'', ''x'']).
              \<exists>b \<in> set [''AB'', ''x'']. glob_match b q"
    by (simp add: glob_match_def)
  have e: "select_spec glob_match [''AB'', ''x'']
             (filter (\<lambda>q. \<exists>b \<in> set [''AB'', ''x'']. glob_match b q) [''A*'', ''nomatch'', ''x''])
           = [''AB'', ''x'']"
    by (simp add: select_spec_def glob_match_def)
  note inst = selector_unmatched_pattern[of "''nomatch''" "[''A*'', ''nomatch'', ''x'']"
      "[''AB'', ''x'']" glob_match, OF h1 h2]
  from inst h3 have a: "get_matching_variables glob_match [''AB'', ''x''] [''A*'', ''nomatch'', ''x''] True
       = Inl (ValueError
               (''Pattern '' @ [apostrophe] @ ''nomatch'' @ [apostrophe]
                @ '' didn'' @ [apostrophe] @ ''t match any branch''))" by blast
  from inst e have b: "get_matching_variables glob_match [''AB'', ''x''] [''A*'', ''nomatch'', ''x''] False
       = Inr [''AB'', ''x'']" by simp
  from inst have "get_matching_variables glob_match [''AB'', ''x''] [''A*'', ''nomatch'', ''x''] False
       = get_matching_variables glob_match [''AB'', ''x'']
           (filter (\<lambda>q. q \<noteq> ''nomatch'') [''A*'', ''nomatch'', ''x'']) False" by blast
  with b have c: "get_matching_variables glob_match [''AB'', ''x''] [''A*'', ''x''] False = Inr [''AB'', ''x'']"
    by simp
  from h2 have d: "\<not> glob_match ''AB'' ''nomatch'' \<and> \<not> glob_match ''x'' ''nomatch''" by simp
  from a b c d show ?thesis by blast
qed

section \<open>Facts about \<open>read_root\<close>\<close>

lemma select_columns_error:
  "select_columns env branches columns = Inl e \<Longrightarrow> \<exists>p. e = ValueError (pattern_message p)"
  by (auto simp: select_columns_def Let_def get_matching_variables_fail
      split: if_splits option.splits)

lemma remove_vars_error:
  "remove_vars vars all_vars = Inl e \<Longrightarrow> e = ValueError ''list.remove(x): x not in list''"
  by (induction vars arbitrary: all_vars) (auto split: if_splits)

lemma apply_ignore_error:
  "apply_ignore env branches ignore all_vars = Inl e \<Longrightarrow>
     e = ValueError ''index variable is being ignored!''
     \<or> e = ValueError ''list.remove(x): x not in list''"
  by (auto simp: apply_ignore_def Let_def get_matching_variables_no_fail
      split: if_splits dest: remove_vars_error)

lemma select_columns_falsy: "\<not> truthy columns \<Longrightarrow> select_columns env branches columns = Inr branches"
  by (simp add: select_columns_def)

lemma read_selection_falsy:
  "\<not> truthy columns \<Longrightarrow>
     read_selection env path tree_key columns ignore = read_selection env path tree_key NoArg ignore"
  by (auto simp: read_selection_def select_columns_falsy Let_def split: sum.splits option.splits)

lemma read_selection_error_cases:
  assumes "read_selection env path tree_key columns ignore = Inl e"
  shows "e = ImportError ''You need the root_numpy package for ROOT integration''
       \<or> e = ValueError (''More than one tree found in '' @ path)
       \<or> e = LibraryError
       \<or> (truthy columns \<and> (\<exists>p. e = ValueError (pattern_message p)))
       \<or> e = ValueError ''index variable is being ignored!''
       \<or> e = ValueError ''list.remove(x): x not in list''"
proof -
  have sc: "select_columns env b columns = Inl e \<Longrightarrow> truthy columns \<and> (\<exists>p. e = ValueError (pattern_message p))" for b
    using select_columns_error[of env b columns e] select_columns_falsy[of columns env b] by auto
  from assms show ?thesis
    unfolding read_selection_def resolve_tree_key_def Let_def
    by (auto split: if_splits sum.splits option.splits list.splits
        dest!: sc apply_ignore_error)
qed

lemma read_root_error:
  "read_root env path tree_key columns ignore chunksize wher = Inl e \<longleftrightarrow>
     read_selection env path tree_key columns ignore = Inl e"
  by (auto simp: read_root_def split: sum.splits option.splits)

lemma expand_braces_index: "list_set_ok f \<Longrightarrow> expand_braces f ''index'' = [''index'']"
  using expand_braces_plain[of "''index''" f] by (simp add: group_here_def)

lemma remove_vars_keeps:
  "remove_vars vars all_vars = Inr r \<Longrightarrow> x \<in> set all_vars \<Longrightarrow> x \<notin> set vars \<Longrightarrow> x \<in> set r"
  by (induction vars arbitrary: all_vars) (auto split: if_splits)

lemma remove_vars_distinct:
  "distinct all_vars \<Longrightarrow> remove_vars vars all_vars = Inr r \<Longrightarrow> set r = set all_vars - set vars"
proof (induction vars arbitrary: all_vars)
  case Nil
  then show ?case by simp
next
  case (Cons v vars)
  from Cons.prems have v: "v \<in> set all_vars" and r: "remove_vars vars (remove1 v all_vars) = Inr r"
    by (auto split: if_splits)
  from Cons.prems(1) have "distinct (remove1 v all_vars)" by simp
  from Cons.IH[OF this r] Cons.prems(1) show ?case by auto
qed

lemma select_columns_ok:
  assumes "select_columns env branches columns = Inr all_vars" and "truthy columns"
  shows "all_vars = select_spec (fnmatch env) branches
           (concat (map (expand_braces (list_set env))
              (if ''index'' \<in> set branches then as_list columns @ [''index''] else as_list columns)))"
  using assms
  by (auto simp: select_columns_def Let_def get_matching_variables_fail split: option.splits)

lemma select_columns_has_index:
  assumes sc: "select_columns env branches columns = Inr all_vars"
    and idx: "''index'' \<in> set branches"
    and fnm: "fnmatch env ''index'' ''index''"
    and ok: "list_set_ok (list_set env)"
  shows "''index'' \<in> set all_vars"
proof (cases "truthy columns")
  case False
  with sc idx show ?thesis by (simp add: select_columns_def)
next
  case True
  from select_columns_ok[OF sc True] idx
  have "all_vars = select_spec (fnmatch env) branches
           (concat (map (expand_braces (list_set env)) (as_list columns @ [''index''])))"
    by simp
  then show ?thesis
    using idx fnm by (auto simp: set_select_spec expand_braces_index[OF ok])
qed

lemma apply_ignore_keeps_index:
  assumes "apply_ignore env branches ignore all_vars = Inr selected"
    and "''index'' \<in> set all_vars"
  shows "''index'' \<in> set selected"
  using assms
  by (auto simp: apply_ignore_def Let_def get_matching_variables_no_fail
      split: if_splits intro: remove_vars_keeps)

lemma apply_ignore_index_error:
  assumes "truthy ignore" and "p \<in> set (as_list ignore)" and "fnmatch env ''index'' p"
    and "''index'' \<in> set branches" and "list_set_ok (list_set env)"
  shows "apply_ignore env branches ignore all_vars = Inl (ValueError ''index variable is being ignored!'')"
proof -
  from assms(2,3,4) have "''index'' \<in> set (select_spec (fnmatch env) branches (as_list ignore))"
    by (auto simp: set_select_spec)
  then have "''index'' \<in> set (concat (map (expand_braces (list_set env))
      (select_spec (fnmatch env) branches (as_list ignore))))"
    using expand_braces_index[OF assms(5)] by (auto intro!: bexI[of _ "''index''"])
  with assms(1) show ?thesis
    by (simp add: apply_ignore_def get_matching_variables_no_fail Let_def)
qed

lemma example_env_simps:
  "importable (example_env trees)"
  "files (example_env trees) ''f.root'' = trees"
  "fnmatch (example_env trees) = glob_match"
  "list_set (example_env trees) = remdups"
  by (simp_all add: example_env_def)

lemma example_read_index:
  "read_selection (example_env [(''tree'', example_tree)]) ''f.root'' (Some ''tree'')
     (StrList [''A{B,C}'']) NoArg
   = Inr (example_tree, [''AB'', ''AC'', ''index''])"
  by (simp add: read_selection_def resolve_tree_key_def select_columns_def apply_ignore_def
      get_matching_variables_def glob_match_def example_env_simps example_tree_def Let_def
      expand_braces.simps group_here_def strip_def slice_to_def slice_from_def)

text \<open>
  \<open>read_root\<close> applies \<open>expand_braces\<close> to the column names that the ignore patterns have
  selected, not to the patterns. For column names that the expansion leaves alone, the
  ignored columns are removed from the selection as the docstring says.
\<close>

lemma ignored_plain_column_removed:
  assumes rs: "read_selection env path tree_key columns ignore = Inr (t, selected)"
    and tc: "truthy columns" and ti: "truthy ignore"
    and b: "b \<in> set (branch_names t)" and p: "p \<in> set (as_list ignore)" and m: "fnmatch env b p"
    and plain: "expand_braces (list_set env) b = [b]"
  shows "b \<notin> set selected"
proof -
  from rs obtain all_vars where
    sc: "select_columns env (branch_names t) columns = Inr all_vars"
    and ai: "apply_ignore env (branch_names t) ignore all_vars = Inr selected"
    by (auto simp: read_selection_def Let_def split: if_splits sum.splits option.splits)
  from select_columns_ok[OF sc tc] have d: "distinct all_vars"
    by (simp add: select_spec_def distinct_first_occurrences)
  let ?ignored = "select_spec (fnmatch env) (branch_names t) (as_list ignore)"
  let ?ignored' = "concat (map (expand_braces (list_set env)) ?ignored)"
  from b p m have "b \<in> set ?ignored" by (auto simp: set_select_spec)
  with plain have in': "b \<in> set ?ignored'" by (auto intro!: bexI[of _ b])
  from ai ti have "remove_vars ?ignored' all_vars = Inr selected"
    by (auto simp: apply_ignore_def get_matching_variables_no_fail Let_def split: if_splits)
  from remove_vars_distinct[OF d this] in' show ?thesis by simp
qed

lemma glob_match_AB: "glob_match b ''AB'' \<longleftrightarrow> b = ''AB''"
proof (cases b)
  case Nil
  then show ?thesis by (simp add: glob_match_def)
next
  case (Cons x xs)
  then show ?thesis by (cases xs) (auto simp: glob_match_def)
qed

lemma first_occurrences_same:
  assumes "ys \<noteq> []" and "set ys \<subseteq> {x}"
  shows "first_occurrences ys = [x]"
proof (cases ys)
  case Nil
  with assms(1) show ?thesis by simp
next
  case (Cons y ys')
  with assms(2) have "y = x" and "filter (\<lambda>z. z \<noteq> x) ys' = []"
    by (auto simp: filter_empty_conv)
  with Cons show ?thesis by simp
qed

lemma first_occurrences_replicate:
  assumes "x \<in> set xs"
  shows "first_occurrences (filter (\<lambda>y. y = x) xs) = [x]"
proof (rule first_occurrences_same)
  show "filter (\<lambda>y. y = x) xs \<noteq> []" using assms by (auto simp: filter_empty_conv)
  show "set (filter (\<lambda>y. y = x) xs) \<subseteq> {x}" by auto
qed

text \<open>
  The example of claim C3 holds on every tree with a branch \<open>AB\<close>: the call with the
  include pattern \<open>A*\<close> and the ignore pattern \<open>AB\<close> reads a selection without \<open>AB\<close>.
\<close>

lemma ignore_example_holds:
  assumes imp: "importable env"
    and key: "resolve_tree_key env path tree_key = Inr key"
    and tree: "map_of (files env path) key = Some t"
    and ab: "''AB'' \<in> set (branch_names t)"
    and fnm: "fnmatch env = glob_match"
    and ok: "list_set_ok (list_set env)"
  shows "\<exists>selected. read_selection env path tree_key (StrList [''A*'']) (StrList [''AB''])
           = Inr (t, selected) \<and> ''AB'' \<notin> set selected"
proof -
  let ?br = "branch_names t"
  let ?cols = "if ''index'' \<in> set ?br then [''A*'', ''index''] else [''A*'']"
  have eA: "expand_braces (list_set env) ''A*'' = [''A*'']"
    using expand_braces_plain[of "''A*''" "list_set env"] ok by (simp add: group_here_def)
  have eB: "expand_braces (list_set env) ''AB'' = [''AB'']"
    using expand_braces_plain[of "''AB''" "list_set env"] ok by (simp add: group_here_def)
  have mA: "glob_match ''AB'' ''A*''" by (simp add: glob_match_def)
  have mI: "glob_match ''index'' ''index''" by (simp add: glob_match_def)
  have sc: "select_columns env ?br (StrList [''A*'']) = Inr (select_spec glob_match ?br ?cols)"
  proof (cases "''index'' \<in> set ?br")
    case True
    then have "List.find (\<lambda>p. \<forall>b \<in> set ?br. \<not> glob_match b p) [''A*'', ''index''] = None"
      using ab mA mI by (auto simp: find_None_iff)
    with True show ?thesis
      by (simp add: select_columns_def Let_def fnm eA expand_braces_index[OF ok]
          get_matching_variables_fail)
  next
    case False
    have "List.find (\<lambda>p. \<forall>b \<in> set ?br. \<not> glob_match b p) [''A*''] = None"
      using ab mA by (auto simp: find_None_iff)
    with False show ?thesis
      by (simp add: select_columns_def Let_def fnm eA get_matching_variables_fail)
  qed
  let ?all = "select_spec glob_match ?br ?cols"
  have d: "distinct ?all" by (simp add: select_spec_def distinct_first_occurrences)
  have inall: "''AB'' \<in> set ?all" using ab mA by (auto simp: set_select_spec)
  have ign: "select_spec glob_match ?br [''AB''] = [''AB'']"
    using first_occurrences_replicate[OF ab] by (simp add: select_spec_def glob_match_AB)
  have ai: "apply_ignore env ?br (StrList [''AB'']) ?all = Inr (remove1 ''AB'' ?all)"
    using inall by (simp add: apply_ignore_def get_matching_variables_no_fail fnm ign eB)
  have "read_selection env path tree_key (StrList [''A*'']) (StrList [''AB''])
      = Inr (t, remove1 ''AB'' ?all)"
    using imp key tree sc ai by (simp add: read_selection_def)
  moreover have "''AB'' \<notin> set (remove1 ''AB'' ?all)" using d by simp
  ultimately show ?thesis by blast
qed

text \<open>Chunked reading: the arithmetic of the chunk count, and tables cut into parts.\<close>

lemma exact_ceil_ceiling: "exact_ceil n c = \<lceil>real_of_int n / real_of_int c\<rceil>"
  by (simp add: exact_ceil_def ceiling_divide_eq_div)

lemma div_bounds:
  fixes a c :: int
  assumes "0 < c"
  shows "(a div c) * c \<le> a \<and> a < (a div c) * c + c"
proof -
  have e: "c * (a div c) + a mod c = a" by (rule mult_div_mod_eq)
  have l: "0 \<le> a mod c" using assms by simp
  have u: "a mod c < c" using assms by simp
  have m: "(a div c) * c = c * (a div c)" by (rule mult.commute)
  from e l u m show ?thesis by linarith
qed

lemma exact_ceil_covers: "0 < c \<Longrightarrow> n \<le> exact_ceil n c * c"
  using div_bounds[of c "- n"] by (simp add: exact_ceil_def)

lemma exact_ceil_least: "0 < c \<Longrightarrow> int k < exact_ceil n c \<Longrightarrow> int k * c < n"
proof -
  assume c: "0 < c" and k: "int k < exact_ceil n c"
  from k have "(- n) div c + 1 \<le> - int k" by (simp add: exact_ceil_def)
  then have "((- n) div c + 1) * c \<le> (- int k) * c"
    using c by (simp only: mult_right_mono less_imp_le)
  then have "(- n) div c * c + c \<le> - (int k * c)" by (simp add: algebra_simps)
  with div_bounds[OF c, of "- n"] show ?thesis by linarith
qed

text \<open>The double-precision count: bit lengths, exponents, rounding, and the cases of the quotient.\<close>

lemma bit_length_bounds:
  "0 < n \<Longrightarrow> 2 ^ bit_length n \<le> 2 * n \<and> n < 2 ^ bit_length n"
proof (induction n rule: bit_length.induct)
  case (1 n)
  show ?case
  proof (cases "n = 1")
    case True
    have "bit_length 1 = 1" by (simp add: bit_length.simps)
    with True show ?thesis by simp
  next
    case False
    with 1(2) have pos: "0 < n div 2" by simp
    have "\<not> n \<le> 0" using 1(2) by simp
    from 1(1)[OF this pos] have ih: "2 ^ bit_length (n div 2) \<le> 2 * (n div 2)" "n div 2 < 2 ^ bit_length (n div 2)"
      by simp_all
    have bl: "bit_length n = Suc (bit_length (n div 2))"
      using 1(2) by (subst bit_length.simps) simp
    have "2 * (n div 2) \<le> n" "n < 2 * (n div 2) + 2" by presburger+
    with ih show ?thesis unfolding bl by simp
  qed
qed

lemma bit_length_pos: "0 < n \<Longrightarrow> 0 < bit_length n"
  by (subst bit_length.simps) simp

lemma log2_floor_scaled:
  assumes "0 < a" "0 < b"
  defines "e \<equiv> nat (log2_floor a b + int (bit_length b))"
  shows "0 \<le> log2_floor a b + int (bit_length b)"
    and "b * 2 ^ e \<le> a * 2 ^ bit_length b"
    and "a * 2 ^ bit_length b < 2 * b * 2 ^ e"
proof -
  define la where "la = bit_length a"
  define lb where "lb = bit_length b"
  have A: "2 ^ la \<le> 2 * a" "a < 2 ^ la" and B: "2 ^ lb \<le> 2 * b" "b < 2 ^ lb"
    using bit_length_bounds[OF assms(1)] bit_length_bounds[OF assms(2)] by (simp_all add: la_def lb_def)
  have lapos: "0 < la" using bit_length_pos[OF assms(1)] by (simp add: la_def)
  have goal: "0 \<le> log2_floor a b + int lb \<and> b * 2 ^ e \<le> a * 2 ^ lb \<and> a * 2 ^ lb < 2 * b * 2 ^ e"
  proof (cases "b * 2 ^ la \<le> a * 2 ^ lb")
    case True
    then have k: "log2_floor a b = int la - int lb" by (simp add: log2_floor_def la_def lb_def)
    then have e: "e = la" by (simp add: e_def lb_def)
    have "a * 2 ^ lb < 2 ^ la * 2 ^ lb" using A(2) by simp
    also have "\<dots> \<le> 2 ^ la * (2 * b)" using B(1) by (intro mult_left_mono) simp_all
    finally show ?thesis using True k by (simp add: e mult_ac)
  next
    case False
    then have k: "log2_floor a b = int la - int lb - 1" by (simp add: log2_floor_def la_def lb_def)
    obtain l where l: "la = Suc l" using lapos by (cases la) simp_all
    have e: "e = l" by (simp add: e_def k l flip: lb_def)
    have "b * 2 ^ l \<le> 2 ^ lb * 2 ^ l" using B(2) by simp
    also have "2 ^ lb * (2::int) ^ l \<le> 2 ^ lb * a" using A(1) by (simp add: l)
    finally have 1: "b * 2 ^ l \<le> a * 2 ^ lb" by (simp add: mult_ac)
    from False have 2: "a * 2 ^ lb < 2 * b * 2 ^ l" by (simp add: l mult_ac)
    show ?thesis using 1 2 k by (simp add: e l)
  qed
  then show "0 \<le> log2_floor a b + int (bit_length b)"
    and "b * 2 ^ e \<le> a * 2 ^ bit_length b"
    and "a * 2 ^ bit_length b < 2 * b * 2 ^ e"
    by (simp_all add: lb_def)
qed

lemma log2_floor_nonneg:
  assumes "0 < a" "0 < b" "0 \<le> log2_floor a b"
  shows "b * 2 ^ nat (log2_floor a b) \<le> a" and "a < 2 * b * 2 ^ nat (log2_floor a b)"
proof -
  define k where "k = nat (log2_floor a b)"
  have e: "nat (log2_floor a b + int (bit_length b)) = k + bit_length b"
    using assms(3) by (simp add: k_def nat_add_distrib)
  from log2_floor_scaled(2)[OF assms(1,2)] have "(b * 2 ^ k) * 2 ^ bit_length b \<le> a * 2 ^ bit_length b"
    by (simp add: e power_add mult_ac)
  then show "b * 2 ^ nat (log2_floor a b) \<le> a" by (simp add: k_def)
  from log2_floor_scaled(3)[OF assms(1,2)] have "a * 2 ^ bit_length b < (2 * b * 2 ^ k) * 2 ^ bit_length b"
    by (simp add: e power_add mult_ac)
  then show "a < 2 * b * 2 ^ nat (log2_floor a b)" by (simp add: k_def)
qed

lemma log2_floor_neg:
  assumes "0 < a" "0 < b" "log2_floor a b < 0"
  shows "b \<le> a * 2 ^ nat (- log2_floor a b)" and "a * 2 ^ nat (- log2_floor a b) < 2 * b"
proof -
  define k where "k = nat (- log2_floor a b)"
  define e where "e = nat (log2_floor a b + int (bit_length b))"
  have lb: "bit_length b = e + k"
    using assms(3) log2_floor_scaled(1)[OF assms(1,2)] by (simp add: k_def e_def)
  from log2_floor_scaled(2)[OF assms(1,2)] have "b * 2 ^ e \<le> a * 2 ^ (e + k)"
    unfolding e_def[symmetric] lb[symmetric] .
  then have "b * 2 ^ e \<le> (a * 2 ^ k) * 2 ^ e" by (simp add: power_add mult_ac)
  then show "b \<le> a * 2 ^ nat (- log2_floor a b)" by (simp add: k_def)
  from log2_floor_scaled(3)[OF assms(1,2)] have "a * 2 ^ (e + k) < 2 * b * 2 ^ e"
    unfolding e_def[symmetric] lb[symmetric] .
  then have "(a * 2 ^ k) * 2 ^ e < (2 * b) * 2 ^ e" by (simp add: power_add mult_ac)
  then show "a * 2 ^ nat (- log2_floor a b) < 2 * b" by (simp add: k_def)
qed

lemma le_div_int:
  fixes x y i :: int
  assumes "0 < y" "i * y \<le> x"
  shows "i \<le> x div y"
proof -
  have "i * y < (x div y + 1) * y" using div_bounds[OF assms(1), of x] assms(2) by (simp add: algebra_simps)
  then have "i < x div y + 1" using assms(1) by (auto simp: mult_less_cancel_right)
  then show ?thesis by simp
qed

lemma round_half_even_lower:
  assumes "0 < y" "i * y \<le> x"
  shows "i \<le> round_half_even x y"
  using le_div_int[OF assms] by (simp add: round_half_even_def Let_def)

lemma round_half_even_upper:
  assumes "0 < y" "x \<le> i * y"
  shows "round_half_even x y \<le> i"
proof (cases "x mod y = 0")
  case True
  then have "x = (x div y) * y" by (metis mult.commute mult_div_mod_eq add.right_neutral)
  with assms have "(x div y) * y \<le> i * y" by linarith
  then have "x div y \<le> i" using assms(1) by (auto simp: mult_le_cancel_right)
  then show ?thesis using True assms(1) by (simp add: round_half_even_def Let_def)
next
  case False
  then have "0 < x mod y" using assms(1) by (smt (verit) pos_mod_sign)
  moreover have "(x div y) * y + x mod y = x" by (metis mult.commute mult_div_mod_eq)
  ultimately have "(x div y) * y < x" by linarith
  with assms have "(x div y) * y < i * y" by linarith
  then have "x div y < i" using assms(1) by (auto simp: mult_less_cancel_right)
  then show ?thesis by (simp add: round_half_even_def Let_def)
qed

lemma round_half_even_above_half:
  assumes "0 < y" "(2 * i + 1) * y < 2 * x"
  shows "i + 1 \<le> round_half_even x y"
proof -
  have "i * y \<le> x"
  proof -
    have "2 * (i * y) \<le> 2 * x" using assms by (simp add: algebra_simps)
    then show ?thesis by simp
  qed
  then have d: "i \<le> x div y" using assms(1) by (rule le_div_int[rotated])
  show ?thesis
  proof (cases "i = x div y")
    case True
    have e: "x = i * y + x mod y" by (metis True mult.commute mult_div_mod_eq)
    have "(2 * i + 1) * y = 2 * (i * y) + y" by (simp add: algebra_simps)
    with assms(2) e have "y < 2 * (x mod y)" by linarith
    then show ?thesis by (simp add: round_half_even_def Let_def True)
  next
    case False
    with d have "i + 1 \<le> x div y" by simp
    then show ?thesis by (simp add: round_half_even_def Let_def)
  qed
qed

lemma neg_div_ceiling:
  fixes m g r :: int
  assumes "0 < g" "(r - 1) * g < m" "m \<le> r * g"
  shows "- ((- m) div g) = r"
proof -
  have 1: "(- r) * g \<le> - m" using assms(3) by simp
  have 2: "- m < (- r + 1) * g" using assms(2) by (simp add: algebra_simps)
  from le_div_int[OF assms(1) 1] have a: "- r \<le> (- m) div g" .
  have "((- m) div g) * g < (- r + 1) * g" using div_bounds[OF assms(1), of "- m"] 2 by linarith
  then have "(- m) div g < - r + 1" using assms(1) by (auto simp: mult_less_cancel_right)
  with a show ?thesis by simp
qed

lemma round_half_even_one: "round_half_even x 1 = x"
  by (simp add: round_half_even_def)

lemma log2_floor_one:
  assumes "0 < n"
  shows "0 \<le> log2_floor n 1" and "2 ^ nat (log2_floor n 1) \<le> n" and "n < 2 * 2 ^ nat (log2_floor n 1)"
proof -
  show k: "0 \<le> log2_floor n 1"
  proof (rule ccontr)
    assume "\<not> 0 \<le> log2_floor n 1"
    then have neg: "log2_floor n 1 < 0" by simp
    then obtain j where j: "nat (- log2_floor n 1) = Suc j" by (cases "nat (- log2_floor n 1)") simp_all
    from log2_floor_neg(2)[OF assms _ neg] have "n * 2 ^ Suc j < 2" by (simp add: j)
    moreover have "n * 2 \<le> n * 2 ^ Suc j" using assms by simp
    ultimately show False using assms by linarith
  qed
  from log2_floor_nonneg[OF assms _ k]
  show "2 ^ nat (log2_floor n 1) \<le> n" and "n < 2 * 2 ^ nat (log2_floor n 1)" by simp_all
qed

lemma py_float_exact:
  assumes "0 \<le> n" "n < 2 ^ 53"
  shows "py_float n = Inr n"
proof (cases "n = 0")
  case True
  then show ?thesis by (simp add: py_float_def)
next
  case False
  with assms have pos: "0 < n" by simp
  define k where "k = nat (log2_floor n 1)"
  have k: "log2_floor n 1 = int k" using log2_floor_one(1)[OF pos] by (simp add: k_def)
  have "(2::int) ^ k < 2 ^ 53" using log2_floor_one(2)[OF pos] assms(2) by (simp add: k_def)
  then have k53: "k < 53" by (simp only: power_strict_increasing_iff) 
  have big: "n < 2 ^ 1024" using assms(2) by simp
  show ?thesis
  proof (cases "k = 52")
    case True
    then show ?thesis using pos big by (simp add: py_float_def nearest_double_def k round_half_even_one)
  next
    case False
    with k53 have q: "int k - 52 < 0" "- 1074 \<le> int k - 52" by simp_all
    then have mx: "max (int k - 52) (- 1074) = int k - 52" by simp
    show ?thesis using pos big q(1)
      by (simp add: py_float_def nearest_double_def k mx round_half_even_one del: max_less_iff_conj)
  qed
qed

lemma py_float_large:
  assumes "2 ^ 53 \<le> c" "py_float c = Inr b"
  shows "2 ^ 53 \<le> b" and "b < 2 ^ 1024"
proof -
  have pos: "0 < c" using assms(1) by (smt (verit) zero_less_power)
  define k where "k = nat (log2_floor c 1)"
  have k: "log2_floor c 1 = int k" using log2_floor_one(1)[OF pos] by (simp add: k_def)
  have "(2::int) ^ 53 < 2 ^ Suc k" using log2_floor_one(3)[OF pos] assms(1) by (simp add: k_def)
  then have "53 < Suc k" by (simp only: power_strict_increasing_iff)
  then have "k = 52 + Suc (k - 53)" by simp
  then obtain q where q: "k = 52 + Suc q" ..
  have mx: "max (int k - 52) (- 1074) = int (Suc q)" by (simp add: q)
  define m where "m = round_half_even c (2 ^ Suc q)"
  have ac: "\<bar>c\<bar> = c" using pos by simp
  have nq: "nat (1 + int q) = Suc q" by simp
  have nd: "nearest_double \<bar>c\<bar> 1 = (m, int (Suc q))"
    unfolding ac nearest_double_def k mx m_def Let_def by (simp add: nq)
  have "2 ^ 52 * 2 ^ Suc q \<le> c" using log2_floor_one(2)[OF pos] by (simp add: k_def[symmetric] q power_add)
  then have m52: "2 ^ 52 \<le> m" unfolding m_def by (intro round_half_even_lower) simp_all
  have v: "b = m * 2 ^ Suc q \<and> m * 2 ^ Suc q < 2 ^ 1024"
    using assms(2) pos unfolding py_float_def nd by (auto simp add: Let_def nq split: if_splits)
  then show "b < 2 ^ 1024" by simp
  have "(2::int) ^ 53 \<le> 2 ^ 52 * 2 ^ Suc q" by simp
  also have "\<dots> \<le> m * 2 ^ Suc q" using m52 by (intro mult_right_mono) simp_all
  finally show "2 ^ 53 \<le> b" using v by simp
qed

lemma float_div_ceil_below:
  assumes "0 < a" "a < b" "b < 2 ^ 1024"
  shows "float_div_ceil a b = 1"
proof -
  have bpos: "0 < b" using assms by simp
  have neg: "log2_floor a b < 0"
  proof (rule ccontr)
    assume "\<not> log2_floor a b < 0"
    then have "0 \<le> log2_floor a b" by simp
    from log2_floor_nonneg(1)[OF assms(1) bpos this] have "b * 2 ^ nat (log2_floor a b) \<le> a" .
    moreover have "b * 1 \<le> b * 2 ^ nat (log2_floor a b)" using bpos by (intro mult_left_mono) simp_all
    ultimately show False using assms(2) by simp
  qed
  define j where "j = nat (- log2_floor a b)"
  define q where "q = max (log2_floor a b - 52) (- 1074)"
  define g :: int where "g = 2 ^ nat (- q)"
  define m where "m = round_half_even (a * g) b"
  have qneg: "q < 0" using neg by (simp add: q_def)
  have gpos: "0 < g" by (simp add: g_def)
  have nd: "nearest_double \<bar>a\<bar> \<bar>b\<bar> = (m, q)"
    using assms(1) bpos qneg by (simp add: nearest_double_def Let_def m_def g_def flip: q_def)
  have "b \<le> a * g"
  proof (cases "- 1074 \<le> log2_floor a b - 52")
    case True
    then have "nat (- q) = 52 + j" using neg by (simp add: q_def j_def)
    then have g: "g = 2 ^ j * 2 ^ 52" by (simp add: g_def power_add)
    have "b \<le> a * 2 ^ j" using log2_floor_neg(1)[OF assms(1) bpos neg] by (simp add: j_def)
    also have "\<dots> = (a * 2 ^ j) * 1" by simp
    also have "\<dots> \<le> (a * 2 ^ j) * 2 ^ 52" using assms(1) by (intro mult_left_mono) simp_all
    finally show ?thesis by (simp add: g mult_ac)
  next
    case False
    then have g: "g = 2 ^ 1074" by (simp add: g_def q_def)
    have "b < 1 * g" using assms(3) by (simp add: g)
    also have "\<dots> \<le> a * g" using assms(1) gpos by (intro mult_right_mono) simp_all
    finally show ?thesis by simp
  qed
  then have "1 * b \<le> a * g" by simp
  from round_half_even_lower[OF bpos this] have m1: "(1 - 1) * g < m" by (simp add: m_def)
  have "a * g \<le> g * b" using assms(2) gpos by (simp add: mult.commute)
  from round_half_even_upper[OF bpos this] have m2: "m \<le> 1 * g" by (simp add: m_def)
  have "- ((- m) div g) = 1" using gpos m1 m2 by (rule neg_div_ceiling)
  then show ?thesis
    using assms(1) bpos qneg unfolding float_div_ceil_def nd by (simp add: g_def)
qed

lemma float_div_ceil_exact:
  assumes "0 < c" "c \<le> n" "n < 2 ^ 53"
  shows "float_div_ceil n c = - ((- n) div c)"
proof -
  have npos: "0 < n" using assms by simp
  have nonneg: "0 \<le> log2_floor n c"
  proof (rule ccontr)
    assume "\<not> 0 \<le> log2_floor n c"
    then have neg: "log2_floor n c < 0" by simp
    then obtain j where j: "nat (- log2_floor n c) = Suc j" by (cases "nat (- log2_floor n c)") simp_all
    from log2_floor_neg(2)[OF npos assms(1) neg] have "n * 2 ^ Suc j < 2 * c" by (simp add: j)
    moreover have "n * 2 \<le> n * 2 ^ Suc j" using npos by simp
    ultimately show False using assms(2) by linarith
  qed
  define k where "k = nat (log2_floor n c)"
  have k: "log2_floor n c = int k" using nonneg by (simp add: k_def)
  have ck: "c * 2 ^ k \<le> n" using log2_floor_nonneg(1)[OF npos assms(1) nonneg] by (simp add: k_def)
  have "1 * 2 ^ k \<le> c * 2 ^ k" using assms(1) by (intro mult_right_mono) simp_all
  with ck assms(3) have "(2::int) ^ k < 2 ^ 53" by linarith
  then have k53: "k < 53" by (simp only: power_strict_increasing_iff)
  define r where "r = - ((- n) div c)"
  have r: "(r - 1) * c < n" "n \<le> r * c"
    using div_bounds[OF assms(1), of "- n"] by (simp_all add: r_def algebra_simps)
  show ?thesis
  proof (cases "k = 52")
    case True
    have "c * 2 ^ 52 < 2 * 2 ^ 52" using ck assms(3) by (simp add: True)
    then have "c < 2" by simp
    with assms(1) have c1: "c = 1" by simp
    have k1: "log2_floor n 1 = 52" using k True c1 by simp
    show ?thesis using npos by (simp add: float_div_ceil_def nearest_double_def k1 c1 round_half_even_one)
  next
    case False
    define e where "e = 52 - k"
    define g :: int where "g = 2 ^ e"
    define m where "m = round_half_even (n * g) c"
    have gpos: "0 < g" by (simp add: g_def)
    have q: "max (int k - 52) (- 1074) = - int e" using False k53 by (simp add: e_def)
    have epos: "0 < e" using False k53 by (simp add: e_def)
    have nd: "nearest_double \<bar>n\<bar> \<bar>c\<bar> = (m, - int e)"
    proof -
      have ab: "\<bar>n\<bar> = n" "\<bar>c\<bar> = c" using npos assms(1) by simp_all
      show ?thesis using epos unfolding ab nearest_double_def k q Let_def by (simp add: m_def g_def)
    qed
    have "g * 2 ^ k = 2 ^ (e + k)" by (simp add: g_def power_add)
    also have "e + k = 52" using k53 by (simp add: e_def)
    finally have gk: "g * 2 ^ k = 2 ^ 52" .
    have "(2 * g) * 2 ^ k = 2 ^ 53" using gk by simp
    with ck assms(3) have "c * 2 ^ k < (2 * g) * 2 ^ k" by linarith
    then have c2g: "c < 2 * g" by simp
    have "n * g \<le> (r * c) * g" using r(2) gpos by (intro mult_right_mono) simp_all
    then have "n * g \<le> (r * g) * c" by (simp add: mult_ac)
    from round_half_even_upper[OF assms(1) this] have m2: "m \<le> r * g" by (simp add: m_def)
    have "(r - 1) * c + 1 \<le> n" using r(1) by simp
    then have "((r - 1) * c + 1) * g \<le> n * g" using gpos by (intro mult_right_mono) simp_all
    then have "(r - 1) * g * c + g \<le> n * g" by (simp add: algebra_simps)
    with c2g have "2 * ((r - 1) * g * c) + c < 2 * (n * g)" by linarith
    then have "(2 * ((r - 1) * g) + 1) * c < 2 * (n * g)" by (simp add: algebra_simps)
    from round_half_even_above_half[OF assms(1) this] have m1: "(r - 1) * g < m" by (simp add: m_def)
    have "- ((- m) div g) = r" using gpos m1 m2 by (rule neg_div_ceiling)
    then show ?thesis
      using npos assms(1) epos unfolding float_div_ceil_def nd by (simp add: g_def r_def)
  qed
qed

lemma float_div_ceil_zero: "float_div_ceil 0 b = 0"
  by (simp add: float_div_ceil_def)

lemma chunk_count_exact:
  assumes "0 < c" "0 \<le> n" "n < 2 ^ 53" "py_float c = Inr b"
  shows "chunk_count n c = Inr (exact_ceil n c)"
proof -
  have fn: "py_float n = Inr n" using assms(2,3) by (rule py_float_exact)
  have cc: "chunk_count n c = Inr (float_div_ceil n b)" by (simp add: chunk_count_def fn assms(4))
  show ?thesis
  proof (cases "n = 0")
    case True
    then show ?thesis using cc by (simp add: float_div_ceil_zero exact_ceil_def)
  next
    case False
    with assms(2) have npos: "0 < n" by simp
    show ?thesis
    proof (cases "c \<le> n")
      case True
      with assms(3) have "c < 2 ^ 53" by simp
      with assms(1,4) have "b = c" using py_float_exact[of c] by simp
      with float_div_ceil_exact[OF assms(1) True assms(3)] show ?thesis by (simp add: cc exact_ceil_def)
    next
      case False
      then have lt: "n < c" by simp
      have b: "n < b \<and> b < 2 ^ 1024"
      proof (cases "c < 2 ^ 53")
        case True
        with assms(1,4) have "b = c" using py_float_exact[of c] by simp
        with lt True show ?thesis by simp
      next
        case False
        then have "2 ^ 53 \<le> c" by simp
        from py_float_large[OF this assms(4)] assms(3) show ?thesis by simp
      qed
      then have "float_div_ceil n b = 1" using npos by (intro float_div_ceil_below) simp_all
      moreover have "- ((- n) div c) = 1"
        using neg_div_ceiling[of c 1 n] assms(1) npos lt by simp
      ultimately show ?thesis by (simp add: cc exact_ceil_def)
    qed
  qed
qed

lemma py_float_fits:
  assumes "0 < c" "c < 2 ^ 1023"
  shows "\<exists>b. py_float c = Inr b"
proof (cases "c < 2 ^ 53")
  case True
  with assms(1) have "py_float c = Inr c" by (intro py_float_exact) simp_all
  then show ?thesis ..
next
  case False
  then have c53: "2 ^ 53 \<le> c" by simp
  define k where "k = nat (log2_floor c 1)"
  have k: "log2_floor c 1 = int k" using log2_floor_one(1)[OF assms(1)] by (simp add: k_def)
  have "(2::int) ^ 53 < 2 ^ Suc k" using log2_floor_one(3)[OF assms(1)] c53 by (simp add: k_def)
  then have "53 < Suc k" by (simp only: power_strict_increasing_iff)
  then have "k = 52 + Suc (k - 53)" by simp
  then obtain q where q: "k = 52 + Suc q" ..
  have "(2::int) ^ k < 2 ^ 1023" using log2_floor_one(2)[OF assms(1)] assms(2) by (simp add: k_def)
  then have k1023: "k < 1023" by (simp only: power_strict_increasing_iff)
  have mx: "max (int k - 52) (- 1074) = int (Suc q)" by (simp add: q)
  define m where "m = round_half_even c (2 ^ Suc q)"
  have ac: "\<bar>c\<bar> = c" using assms(1) by simp
  have nq: "nat (1 + int q) = Suc q" by simp
  have nd: "nearest_double \<bar>c\<bar> 1 = (m, int (Suc q))"
    unfolding ac nearest_double_def k mx m_def Let_def by (simp add: nq)
  have "c \<le> 2 * 2 ^ k" using log2_floor_one(3)[OF assms(1)] by (simp add: k_def)
  also have "(2::int) * 2 ^ k = 2 ^ 53 * 2 ^ Suc q" by (simp add: q power_add)
  finally have m53: "m \<le> 2 ^ 53" unfolding m_def by (intro round_half_even_upper) simp_all
  have "m * 2 ^ Suc q \<le> 2 ^ 53 * 2 ^ Suc q" using m53 by (intro mult_right_mono) simp_all
  also have "(2::int) ^ 53 * 2 ^ Suc q = 2 ^ Suc k" by (simp add: q power_add)
  also have "(2::int) ^ Suc k \<le> 2 ^ 1023" using k1023 by (intro power_increasing) simp_all
  also have "(2::int) ^ 1023 < 2 ^ 1024" by simp
  finally have "m * 2 ^ Suc q < 2 ^ 1024" .
  then have "py_float c = Inr (m * 2 ^ Suc q)"
    using assms(1) unfolding py_float_def nd by (simp add: Let_def nq)
  then show ?thesis ..
qed

lemma py_float_overflow:
  assumes "2 ^ 1024 \<le> c"
  shows "py_float c = Inl OverflowError"
proof -
  have pos: "0 < c" using assms by (smt (verit) zero_less_power)
  define k where "k = nat (log2_floor c 1)"
  have k: "log2_floor c 1 = int k" using log2_floor_one(1)[OF pos] by (simp add: k_def)
  have "(2::int) ^ 1024 < 2 ^ Suc k" using log2_floor_one(3)[OF pos] assms by (simp add: k_def)
  then have k1024: "1024 < Suc k" by (simp only: power_strict_increasing_iff)
  then have "k = 52 + Suc (k - 53)" by simp
  then obtain q where q: "k = 52 + Suc q" ..
  have mx: "max (int k - 52) (- 1074) = int (Suc q)" by (simp add: q)
  define m where "m = round_half_even c (2 ^ Suc q)"
  have ac: "\<bar>c\<bar> = c" using pos by simp
  have nq: "nat (1 + int q) = Suc q" by simp
  have nd: "nearest_double \<bar>c\<bar> 1 = (m, int (Suc q))"
    unfolding ac nearest_double_def k mx m_def Let_def by (simp add: nq)
  have "2 ^ 52 * 2 ^ Suc q \<le> c" using log2_floor_one(2)[OF pos] by (simp add: k_def[symmetric] q power_add)
  then have m52: "2 ^ 52 \<le> m" unfolding m_def by (intro round_half_even_lower) simp_all
  have "(2::int) ^ 1024 \<le> 2 ^ k" using k1024 by (intro power_increasing) simp_all
  also have "(2::int) ^ k = 2 ^ 52 * 2 ^ Suc q" by (simp add: q power_add)
  also have "\<dots> \<le> m * 2 ^ Suc q" using m52 by (intro mult_right_mono) simp_all
  finally have "2 ^ 1024 \<le> m * 2 ^ Suc q" .
  then show ?thesis using pos unfolding py_float_def nd by (simp add: Let_def nq)
qed

text \<open>The count at two inputs where the claim fails.\<close>

lemma chunk_count_big: "chunk_count (2 ^ 53 + 1) (2 ^ 53) = Inr 1"
  by (simp add: chunk_count_def py_float_def nearest_double_def log2_floor_def bit_length.simps
      round_half_even_def float_div_ceil_def Let_def)


lemma chunk_count_wide: "chunk_count (3 * 2 ^ 60 + 2 ^ 9) 3 = Inr (2 ^ 60 + 256)"
  by (simp add: chunk_count_def py_float_def nearest_double_def log2_floor_def bit_length.simps
      round_half_even_def float_div_ceil_def Let_def)

lemma wide_tree_simps:
  "length (entries wide_tree) = 3 * 2 ^ 60 + 2 ^ 9"
  "branch_names wide_tree = [''x'']"
  by (simp_all add: wide_tree_def)

lemma big_tree_simps:
  "length (entries big_tree) = 2 ^ 53 + 1"
  "branch_names big_tree = [''x'']"
  by (simp_all add: big_tree_def)

text \<open>Tables cut into parts.\<close>

lemma take_chunks: "concat (map (\<lambda>k. take c (drop (k * c) es)) [0 ..< n]) = take (n * c) es"
proof (induction n)
  case 0
  then show ?case by simp
next
  case (Suc n)
  have "take (n * c) es @ take c (drop (n * c) es) = take (n * c + c) es"
    by (simp add: take_add)
  with Suc show ?case by (simp add: add.commute)
qed

lemma chunks_concat:
  "length es \<le> n * c \<Longrightarrow> concat (map (\<lambda>k. take c (drop (k * c) es)) [0 ..< n]) = es"
  by (simp add: take_chunks)

lemma table_of_root2array:
  "convert_to_dataframe (root2array env t vars wher rows)
   = table_of vars (selected_entries env wher
       (case rows of None \<Rightarrow> entries t
        | Some (start, stop) \<Rightarrow> take (nat (stop - start)) (drop (nat start) (entries t))))"
  by (simp add: root2array_def table_of_def selected_entries_def Let_def
      split: option.splits prod.splits)

lemma append_rows_table_of:
  "append_rows (table_of vars a) (table_of vars b) = table_of vars (a @ b)"
  by (simp add: append_rows_def table_of_def convert_to_dataframe_def)

lemma no_rows_table_of: "no_rows (table_of vars es) = table_of vars []"
  by (simp add: no_rows_def table_of_def convert_to_dataframe_def)

lemma foldl_append_rows:
  "foldl append_rows (table_of vars a) (map (table_of vars) parts) = table_of vars (a @ concat parts)"
  by (induction parts arbitrary: a) (simp_all add: append_rows_table_of)

lemma selected_entries_concat:
  "selected_entries env wher (concat parts) = concat (map (selected_entries env wher) parts)"
  by (induction parts) (simp_all add: selected_entries_def split: option.splits)

lemma df_rows_table_of_concat:
  "concat (map (\<lambda>p. df_rows (table_of vars p)) parts) = df_rows (table_of vars (concat parts))"
  by (induction parts) (simp_all add: table_of_def convert_to_dataframe_def)

lemma length_df_rows_table_of: "length (df_rows (table_of vars es)) = length es"
  by (simp add: table_of_def convert_to_dataframe_def)

lemma df_columns_table_of: "df_columns (table_of vars a) = df_columns (table_of vars b)"
  by (simp add: table_of_def convert_to_dataframe_def)

text \<open>The chunks as slices of the entries, counted in natural numbers.\<close>

lemma genchunks_slices:
  assumes c: "0 < c" and n: "length (entries t) < 2 ^ 53" and f: "py_float c = Inr b"
  shows "genchunks env t vars wher (int (length (entries t))) c
       = Inr (map (\<lambda>k. table_of vars (selected_entries env wher
                     (take (nat c) (drop (k * nat c) (entries t)))))
           [0 ..< nat (exact_ceil (int (length (entries t))) c)])"
proof -
  have "nat ((int k + 1) * c - int k * c) = nat c" for k
    by (simp add: algebra_simps)
  moreover have "nat (int k * c) = k * nat c" for k
    using c by (simp add: nat_mult_distrib)
  moreover have "int (length (entries t)) < 2 ^ 53" using n by simp
  then have "chunk_count (int (length (entries t))) c = Inr (exact_ceil (int (length (entries t))) c)"
    using c f by (intro chunk_count_exact) simp_all
  ultimately show ?thesis
    by (simp add: genchunks_def table_of_root2array comp_def)
qed

lemma genchunks_overflow:
  assumes n: "length (entries t) < 2 ^ 53" and f: "py_float c = Inl e"
  shows "genchunks env t vars wher (int (length (entries t))) c = Inl e"
proof -
  have "int (length (entries t)) < 2 ^ 53" using n by simp
  then have "py_float (int (length (entries t))) = Inr (int (length (entries t)))"
    by (intro py_float_exact) simp_all
  then show ?thesis using f by (simp add: genchunks_def chunk_count_def)
qed

lemma tables_yielded_count:
  assumes "read_selection env path tree_key columns ignore = Inr (t, all_vars)"
    and "c \<noteq> 0" and "chunk_count (int (length (entries t))) c = Inr n"
  shows "tables_yielded (read_root env path tree_key columns ignore (Some c) wher) = Some (nat n)"
  using assms by (simp add: read_root_def genchunks_def)

lemma take_min_length: "take (min a (length xs)) xs = take a xs"
  by (cases "a \<le> length xs") (simp_all add: min_def)

lemma chunk_bounds_nat:
  assumes c: "0 < c" and k: "int k * c < int L"
  shows "nat (min ((int k + 1) * c) (int L) - int k * c) = min (nat c) (L - k * nat c)"
    and "int (min (nat c) (L - k * nat c)) = min ((int k + 1) * c) (int L) - int k * c"
    and "nat (int k * c) = k * nat c"
proof -
  define m where "m = nat c"
  define P where "P = k * m"
  have cm: "c = int m" using c by (simp add: m_def)
  have a: "int k * c = int P" by (simp add: P_def cm)
  have b: "(int k + 1) * c = int P + int m" by (simp add: P_def cm algebra_simps)
  from k a have PL: "P < L" by simp
  show "nat (min ((int k + 1) * c) (int L) - int k * c) = min (nat c) (L - k * nat c)"
    unfolding a b m_def[symmetric] P_def[symmetric] using PL by (auto simp: min_def)
  show "int (min (nat c) (L - k * nat c)) = min ((int k + 1) * c) (int L) - int k * c"
    unfolding a b m_def[symmetric] P_def[symmetric] using PL by (auto simp: min_def)
  show "nat (int k * c) = k * nat c"
    unfolding a m_def[symmetric] P_def[symmetric] by simp
qed

lemma chunk_stop_clamped:
  assumes c: "0 < c" and k: "int k * c < int (length es)"
  shows "take (nat (min ((int k + 1) * c) (int (length es)) - int k * c)) (drop (nat (int k * c)) es)
       = take (nat c) (drop (k * nat c) es)"
proof -
  have "min (nat c) (length es - k * nat c) = min (nat c) (length (drop (k * nat c) es))"
    by simp
  then show ?thesis
    by (simp only: chunk_bounds_nat[OF c k] take_min_length)
qed

lemma chunk_row_count:
  assumes c: "0 < c" and k: "int k * c < int (length es)"
  shows "int (length (take (nat c) (drop (k * nat c) es)))
       = min ((int k + 1) * c) (int (length es)) - int k * c"
  using chunk_bounds_nat(2)[OF c k] by (simp add: min.commute)

lemma df_index_table_of_default:
  "''index'' \<notin> set vars \<Longrightarrow> df_index (table_of vars es) = None"
  by (simp add: table_of_def convert_to_dataframe_def)

lemma df_index_table_of_concat:
  assumes "''index'' \<in> set vars"
  shows "concat (map (\<lambda>p. case df_index (table_of vars p) of None \<Rightarrow> [] | Some i \<Rightarrow> i) parts)
       = (case df_index (table_of vars (concat parts)) of None \<Rightarrow> [] | Some i \<Rightarrow> i)"
    and "df_index (table_of vars es) \<noteq> None"
  using assms by (induction parts) (simp_all add: table_of_def convert_to_dataframe_def)

section \<open>Claims about \<open>read_root\<close>\<close>

text \<open>
  Claim C1, as the code has it. Take a positive \<open>chunksize\<close> \<open>c\<close> and a call that resolves
  its selection on a tree of \<open>N\<close> entries, \<open>N\<close> below \<open>2^53\<close>. The number of chunks is computed
  in double precision. If \<open>c\<close> is too large for a \<open>float\<close>, the generator raises
  \<open>OverflowError\<close> at its first step and yields no table; every \<open>c\<close> below \<open>2^1023\<close> is a
  \<open>float\<close> and no \<open>c\<close> from \<open>2^1024\<close> on is. If \<open>c\<close> is a \<open>float\<close>, the call yields
  \<open>ceil(N / c)\<close> tables; the table number \<open>k\<close> is what reading the rows from \<open>k * c\<close> up to
  \<open>min ((k + 1) * c) N\<close> gives, so without a selection expression it has that many rows
  (\<open>3, 3, 3, 1\<close> for ten entries and \<open>c = 3\<close>). The rows of the tables, one table after the
  other, are the rows of the table that the same call returns without \<open>chunksize\<close>; every
  chunk has its columns; and appending the chunks to that table emptied of its rows gives
  it back. If the branch \<open>index\<close> is read, the index columns of the chunks make up the
  index column of that table; if not, that table and every chunk have the default index,
  the positions of their own rows. A call whose selection fails raises the same exception
  with and without \<open>chunksize\<close>.
\<close>

theorem chunked_read:
  assumes c: "0 < c" and n: "length (entries t) < 2 ^ 53"
  shows "(read_selection env path tree_key columns ignore = Inl e \<longrightarrow>
            read_root env path tree_key columns ignore (Some c) wher = Inl e
            \<and> read_root env path tree_key columns ignore None wher = Inl e)
       \<and> (read_selection env path tree_key columns ignore = Inr (t, all_vars) \<longrightarrow>
            (py_float c = Inl e' \<longrightarrow>
               read_root env path tree_key columns ignore (Some c) wher = Inr (Chunks (Inl e')))
          \<and> (py_float c = Inr b \<longrightarrow>
            (\<exists>chunks full.
               read_root env path tree_key columns ignore (Some c) wher = Inr (Chunks (Inr chunks))
               \<and> read_root env path tree_key columns ignore None wher = Inr (Table full)
               \<and> int (length chunks) = \<lceil>real (length (entries t)) / real_of_int c\<rceil>
               \<and> (\<forall>k < length chunks.
                     chunks ! k = convert_to_dataframe (root2array env t all_vars wher
                       (Some (int k * c, min ((int k + 1) * c) (int (length (entries t)))))))
               \<and> (wher = None \<longrightarrow>
                     map (\<lambda>d. int (length (df_rows d))) chunks
                       = map (\<lambda>k. min ((int k + 1) * c) (int (length (entries t))) - int k * c)
                           [0 ..< length chunks])
               \<and> (length (entries t) = 10 \<and> c = 3 \<and> wher = None \<longrightarrow>
                     map (\<lambda>d. length (df_rows d)) chunks = [3, 3, 3, 1])
               \<and> concat (map df_rows chunks) = df_rows full
               \<and> (\<forall>d \<in> set chunks. df_columns d = df_columns full)
               \<and> foldl append_rows (no_rows full) chunks = full
               \<and> (''index'' \<in> set all_vars \<longrightarrow>
                     df_index full \<noteq> None \<and> (\<forall>d \<in> set chunks. df_index d \<noteq> None)
                     \<and> concat (map (\<lambda>d. case df_index d of None \<Rightarrow> [] | Some i \<Rightarrow> i) chunks)
                         = (case df_index full of None \<Rightarrow> [] | Some i \<Rightarrow> i))
               \<and> (''index'' \<notin> set all_vars \<longrightarrow>
                     df_index full = None \<and> (\<forall>d \<in> set chunks. df_index d = None)))))
       \<and> (c < 2 ^ 1023 \<longrightarrow> (\<exists>b. py_float c = Inr b))
       \<and> (2 ^ 1024 \<le> c \<longrightarrow> py_float c = Inl OverflowError)"
proof (intro conjI impI)
  assume "read_selection env path tree_key columns ignore = Inl e"
  then show "read_root env path tree_key columns ignore (Some c) wher = Inl e"
    and "read_root env path tree_key columns ignore None wher = Inl e"
    by (simp_all add: read_root_error)
next
  assume sel: "read_selection env path tree_key columns ignore = Inr (t, all_vars)"
    and ov: "py_float c = Inl e'"
  show "read_root env path tree_key columns ignore (Some c) wher = Inr (Chunks (Inl e'))"
    using sel c by (simp add: read_root_def genchunks_overflow[OF n ov])
next
  assume "c < 2 ^ 1023"
  with c show "\<exists>b. py_float c = Inr b" by (intro py_float_fits) simp_all
next
  assume "2 ^ 1024 \<le> c"
  then show "py_float c = Inl OverflowError" by (rule py_float_overflow)
next
  assume sel: "read_selection env path tree_key columns ignore = Inr (t, all_vars)"
    and f: "py_float c = Inr b"
  let ?es = "entries t"
  let ?N = "int (length ?es)"
  let ?n = "nat (exact_ceil ?N c)"
  let ?part = "\<lambda>k. take (nat c) (drop (k * nat c) ?es)"
  let ?tab = "\<lambda>es. table_of all_vars (selected_entries env wher es)"
  let ?chunks = "map (\<lambda>k. ?tab (?part k)) [0 ..< ?n]"
  let ?full = "?tab ?es"
  have rc: "read_root env path tree_key columns ignore (Some c) wher = Inr (Chunks (Inr ?chunks))"
    using sel c by (simp add: read_root_def genchunks_slices[OF c n f])
  have rf: "read_root env path tree_key columns ignore None wher = Inr (Table ?full)"
    using sel by (simp add: read_root_def table_of_root2array)
  have nonneg: "0 \<le> exact_ceil ?N c"
  proof (rule ccontr)
    assume "\<not> 0 \<le> exact_ceil ?N c"
    then have "exact_ceil ?N c \<le> - 1" by simp
    then have "exact_ceil ?N c * c \<le> (- 1) * c" using c by (simp only: mult_right_mono less_imp_le)
    with exact_ceil_covers[OF c, of ?N] c show False by simp
  qed
  have len: "length ?chunks = ?n" by simp
  have count: "int (length ?chunks) = \<lceil>real (length ?es) / real_of_int c\<rceil>"
    using nonneg exact_ceil_ceiling[of ?N c] by simp
  have below: "int k * c < ?N" if "k < ?n" for k
    using that nonneg by (intro exact_ceil_least[OF c]) simp
  have nth: "?chunks ! k = convert_to_dataframe (root2array env t all_vars wher
                       (Some (int k * c, min ((int k + 1) * c) ?N)))" if "k < length ?chunks" for k
  proof -
    from that have k: "k < ?n" by simp
    then have "?chunks ! k = ?tab (?part k)" by simp
    also have "?part k = take (nat (min ((int k + 1) * c) ?N - int k * c)) (drop (nat (int k * c)) ?es)"
      by (rule chunk_stop_clamped[OF c below[OF k], symmetric])
    finally show ?thesis by (simp add: table_of_root2array)
  qed
  have rows: "map (\<lambda>d. int (length (df_rows d))) ?chunks
                = map (\<lambda>k. min ((int k + 1) * c) ?N - int k * c) [0 ..< length ?chunks]"
    if w: "wher = None"
  proof -
    have "int (length (df_rows (?tab (?part k)))) = min ((int k + 1) * c) ?N - int k * c"
      if "k < ?n" for k
      using chunk_row_count[OF c below[OF that]] w
      by (simp add: length_df_rows_table_of selected_entries_def)
    then show ?thesis by (simp add: comp_def)
  qed
  have example: "map (\<lambda>d. length (df_rows d)) ?chunks = [3, 3, 3, 1]"
    if h: "length ?es = 10 \<and> c = 3 \<and> wher = None"
  proof -
    have n: "nat (exact_ceil 10 3) = 4" by (simp add: exact_ceil_def)
    have u: "[0 ..< (4::nat)] = [0, 1, 2, 3]" by (simp add: upt_rec)
    from h show ?thesis
      by (simp add: n u comp_def length_df_rows_table_of selected_entries_def)
  qed
  have cover: "length ?es \<le> ?n * nat c"
  proof -
    from exact_ceil_covers[OF c, of ?N] nonneg c have "?N \<le> int (?n * nat c)" by simp
    then show ?thesis by linarith
  qed
  have parts: "concat (map ?part [0 ..< ?n]) = ?es"
    by (rule chunks_concat[OF cover])
  have sel_parts: "concat (map (\<lambda>k. selected_entries env wher (?part k)) [0 ..< ?n])
      = selected_entries env wher ?es"
    using selected_entries_concat[of env wher "map ?part [0 ..< ?n]"] parts
    by (simp add: comp_def)
  have cat: "concat (map df_rows ?chunks) = df_rows ?full"
    using df_rows_table_of_concat[of all_vars "map (\<lambda>k. selected_entries env wher (?part k)) [0 ..< ?n]"]
      sel_parts
    by (simp add: comp_def)
  have cols: "\<forall>d \<in> set ?chunks. df_columns d = df_columns ?full"
    by (auto intro: df_columns_table_of)
  have fold: "foldl append_rows (no_rows ?full) ?chunks = ?full"
    using foldl_append_rows[of all_vars "[]" "map (\<lambda>k. selected_entries env wher (?part k)) [0 ..< ?n]"]
      sel_parts
    by (simp add: no_rows_table_of comp_def)
  have idx: "''index'' \<in> set all_vars \<longrightarrow>
                     df_index ?full \<noteq> None \<and> (\<forall>d \<in> set ?chunks. df_index d \<noteq> None)
                     \<and> concat (map (\<lambda>d. case df_index d of None \<Rightarrow> [] | Some i \<Rightarrow> i) ?chunks)
                         = (case df_index ?full of None \<Rightarrow> [] | Some i \<Rightarrow> i)"
  proof
    assume i: "''index'' \<in> set all_vars"
    have "concat (map (\<lambda>d. case df_index d of None \<Rightarrow> [] | Some i \<Rightarrow> i) ?chunks)
        = (case df_index ?full of None \<Rightarrow> [] | Some i \<Rightarrow> i)"
      using df_index_table_of_concat(1)[OF i,
          of "map (\<lambda>k. selected_entries env wher (?part k)) [0 ..< ?n]"] sel_parts
      by (simp add: comp_def)
    with df_index_table_of_concat(2)[OF i]
    show "df_index ?full \<noteq> None \<and> (\<forall>d \<in> set ?chunks. df_index d \<noteq> None)
        \<and> concat (map (\<lambda>d. case df_index d of None \<Rightarrow> [] | Some i \<Rightarrow> i) ?chunks)
            = (case df_index ?full of None \<Rightarrow> [] | Some i \<Rightarrow> i)"
      by auto
  qed
  have noidx: "''index'' \<notin> set all_vars \<longrightarrow>
                     df_index ?full = None \<and> (\<forall>d \<in> set ?chunks. df_index d = None)"
    by (auto simp: df_index_table_of_default)
  from rc rf count nth rows example cat cols fold idx noidx
  show "\<exists>chunks full.
               read_root env path tree_key columns ignore (Some c) wher = Inr (Chunks (Inr chunks))
               \<and> read_root env path tree_key columns ignore None wher = Inr (Table full)
               \<and> int (length chunks) = \<lceil>real (length (entries t)) / real_of_int c\<rceil>
               \<and> (\<forall>k < length chunks.
                     chunks ! k = convert_to_dataframe (root2array env t all_vars wher
                       (Some (int k * c, min ((int k + 1) * c) (int (length (entries t)))))))
               \<and> (wher = None \<longrightarrow>
                     map (\<lambda>d. int (length (df_rows d))) chunks
                       = map (\<lambda>k. min ((int k + 1) * c) (int (length (entries t))) - int k * c)
                           [0 ..< length chunks])
               \<and> (length (entries t) = 10 \<and> c = 3 \<and> wher = None \<longrightarrow>
                     map (\<lambda>d. length (df_rows d)) chunks = [3, 3, 3, 1])
               \<and> concat (map df_rows chunks) = df_rows full
               \<and> (\<forall>d \<in> set chunks. df_columns d = df_columns full)
               \<and> foldl append_rows (no_rows full) chunks = full
               \<and> (''index'' \<in> set all_vars \<longrightarrow>
                     df_index full \<noteq> None \<and> (\<forall>d \<in> set chunks. df_index d \<noteq> None)
                     \<and> concat (map (\<lambda>d. case df_index d of None \<Rightarrow> [] | Some i \<Rightarrow> i) chunks)
                         = (case df_index full of None \<Rightarrow> [] | Some i \<Rightarrow> i))
               \<and> (''index'' \<notin> set all_vars \<longrightarrow>
                     df_index full = None \<and> (\<forall>d \<in> set chunks. df_index d = None))"
    by (intro exI[of _ ?chunks] exI[of _ ?full]) blast
qed

theorem chunked_read_witness:
  "(0::int) < 3
   \<and> length (entries example_tree) < 2 ^ 53
   \<and> read_selection (example_env [(''tree'', example_tree)]) ''f.root'' None (Str ''x'') NoArg
       = Inr (example_tree, [''x'', ''index''])
   \<and> py_float 3 = Inr 3
   \<and> length (entries example_tree) = 10
   \<and> (\<exists>chunks full.
         read_root (example_env [(''tree'', example_tree)]) ''f.root'' None (Str ''x'') NoArg
             (Some 3) None = Inr (Chunks (Inr chunks))
         \<and> read_root (example_env [(''tree'', example_tree)]) ''f.root'' None (Str ''x'') NoArg
             None None = Inr (Table full)
         \<and> length chunks = 4
         \<and> map (\<lambda>d. length (df_rows d)) chunks = [3, 3, 3, 1]
         \<and> concat (map df_rows chunks) = df_rows full
         \<and> foldl append_rows (no_rows full) chunks = full)"
proof -
  let ?env = "example_env [(''tree'', example_tree)]"
  have c: "(0::int) < 3" by simp
  have s: "read_selection ?env ''f.root'' None (Str ''x'') NoArg = Inr (example_tree, [''x'', ''index''])"
    by (simp add: read_selection_def resolve_tree_key_def list_trees_def select_columns_def
        apply_ignore_def get_matching_variables_def glob_match_def example_env_simps
        example_tree_def Let_def expand_braces.simps group_here_def)
  have n: "length (entries example_tree) = 10" by (simp add: example_tree_def)
  have m: "length (entries example_tree) < 2 ^ 53" by (simp add: n)
  have f: "py_float 3 = Inr 3" by (rule py_float_exact) simp_all
  note inst = chunked_read[OF c m, where env = ?env and path = "''f.root''" and tree_key = None
      and columns = "Str ''x''" and ignore = NoArg and wher = None
      and all_vars = "[''x'', ''index'']" and e = LibraryError and e' = OverflowError and b = 3]
  from conjunct2[OF conjunct1[OF conjunct2[OF inst], THEN mp, OF s], THEN mp, OF f]
  obtain chunks full where
    1: "read_root ?env ''f.root'' None (Str ''x'') NoArg (Some 3) None = Inr (Chunks (Inr chunks))"
    and 2: "read_root ?env ''f.root'' None (Str ''x'') NoArg None None = Inr (Table full)"
    and 3: "int (length chunks) = \<lceil>real (length (entries example_tree)) / real_of_int 3\<rceil>"
    and 4: "length (entries example_tree) = 10 \<and> (3::int) = 3 \<and> (None::string option) = None \<longrightarrow>
              map (\<lambda>d. length (df_rows d)) chunks = [3::nat, 3, 3, 1]"
    and 5: "concat (map df_rows chunks) = df_rows full"
    and 6: "foldl append_rows (no_rows full) chunks = full"
    by (elim exE conjE) simp
  from 3 n have l: "length chunks = 4" by simp
  from 4 n have r: "map (\<lambda>d. length (df_rows d)) chunks = [3, 3, 3, 1]" by simp
  show ?thesis
    by (intro conjI exI[of _ chunks] exI[of _ full]) (rule c m s f n 1 2 l r 5 6)+
qed

text \<open>
  Claim C1 as it is worded does not hold for every source and every positive \<open>chunksize\<close>.
  A tree of \<open>2^53 + 1\<close> entries read with \<open>chunksize = 2^53\<close> has \<open>ceil(N / c) = 2\<close>, but
  \<open>float(2^53 + 1)\<close> is \<open>2^53\<close> and the call yields one table. A tree of \<open>3 * 2^60 + 2^9\<close>
  entries read with \<open>chunksize = 3\<close> has \<open>ceil(N / c) = 2^60 + 171\<close>, but the quotient is
  rounded to the double \<open>2^60 + 256\<close> and the call yields that many tables. The ten
  entries of the example tree read with \<open>chunksize = 2^1024\<close> have \<open>ceil(N / c) = 1\<close>, but
  \<open>2^1024\<close> is too large for a \<open>float\<close> and the generator raises \<open>OverflowError\<close>.
\<close>

theorem chunked_read_counterexample:
  "length (entries big_tree) = 2 ^ 53 + 1
   \<and> \<lceil>real (length (entries big_tree)) / real_of_int (2 ^ 53)\<rceil> = 2
   \<and> tables_yielded (read_root (example_env [(''tree'', big_tree)]) ''f.root'' None NoArg NoArg
         (Some (2 ^ 53)) None) = Some 1
   \<and> length (entries wide_tree) = 3 * 2 ^ 60 + 2 ^ 9
   \<and> \<lceil>real (length (entries wide_tree)) / real_of_int 3\<rceil> = 2 ^ 60 + 171
   \<and> tables_yielded (read_root (example_env [(''tree'', wide_tree)]) ''f.root'' None NoArg NoArg
         (Some 3) None) = Some (2 ^ 60 + 256)
   \<and> length (entries example_tree) = 10
   \<and> \<lceil>real (length (entries example_tree)) / real_of_int (2 ^ 1024)\<rceil> = 1
   \<and> read_root (example_env [(''tree'', example_tree)]) ''f.root'' None (Str ''x'') NoArg
         (Some (2 ^ 1024)) None = Inr (Chunks (Inl OverflowError))"
proof -
  have n: "length (entries big_tree) = 2 ^ 53 + 1" by (rule big_tree_simps)
  have ni: "int (length (entries big_tree)) = 2 ^ 53 + 1" using n by simp
  have "\<lceil>real (length (entries big_tree)) / real_of_int (2 ^ 53)\<rceil>
          = exact_ceil (int (length (entries big_tree))) (2 ^ 53)"
    by (simp only: exact_ceil_ceiling of_int_of_nat_eq)
  also have "\<dots> = 2" unfolding ni by (simp add: exact_ceil_def)
  finally have cl: "\<lceil>real (length (entries big_tree)) / real_of_int (2 ^ 53)\<rceil> = 2" .
  have s: "read_selection (example_env [(''tree'', big_tree)]) ''f.root'' None NoArg NoArg
             = Inr (big_tree, [''x''])"
    by (simp add: read_selection_def resolve_tree_key_def list_trees_def select_columns_def
        apply_ignore_def example_env_simps big_tree_simps Let_def)
  have k: "chunk_count (int (length (entries big_tree))) (2 ^ 53) = Inr 1"
    unfolding ni by (rule chunk_count_big)
  have y: "tables_yielded (read_root (example_env [(''tree'', big_tree)]) ''f.root'' None NoArg NoArg
             (Some (2 ^ 53)) None) = Some 1"
    using tables_yielded_count[OF s _ k, of None] by simp
  have w: "length (entries wide_tree) = 3 * 2 ^ 60 + 2 ^ 9" by (rule wide_tree_simps)
  have wi: "int (length (entries wide_tree)) = 3 * 2 ^ 60 + 2 ^ 9" using w by simp
  have "\<lceil>real (length (entries wide_tree)) / real_of_int 3\<rceil>
          = exact_ceil (int (length (entries wide_tree))) 3"
    by (simp only: exact_ceil_ceiling of_int_of_nat_eq)
  also have "\<dots> = 2 ^ 60 + 171" unfolding wi by (simp add: exact_ceil_def)
  finally have clw: "\<lceil>real (length (entries wide_tree)) / real_of_int 3\<rceil> = 2 ^ 60 + 171" .
  have sw: "read_selection (example_env [(''tree'', wide_tree)]) ''f.root'' None NoArg NoArg
             = Inr (wide_tree, [''x''])"
    by (simp add: read_selection_def resolve_tree_key_def list_trees_def select_columns_def
        apply_ignore_def example_env_simps wide_tree_simps Let_def)
  have kw: "chunk_count (int (length (entries wide_tree))) 3 = Inr (2 ^ 60 + 256)"
    unfolding wi by (rule chunk_count_wide)
  have yw: "tables_yielded (read_root (example_env [(''tree'', wide_tree)]) ''f.root'' None NoArg NoArg
             (Some 3) None) = Some (2 ^ 60 + 256)"
    using tables_yielded_count[OF sw _ kw, of None] by simp
  have m: "length (entries example_tree) = 10" by (simp add: example_tree_def)
  have mi: "int (length (entries example_tree)) = 10" using m by simp
  have "\<lceil>real (length (entries example_tree)) / real_of_int (2 ^ 1024)\<rceil>
          = exact_ceil (int (length (entries example_tree))) (2 ^ 1024)"
    by (simp only: exact_ceil_ceiling of_int_of_nat_eq)
  also have "\<dots> = 1" unfolding mi by (simp add: exact_ceil_def)
  finally have cl2: "\<lceil>real (length (entries example_tree)) / real_of_int (2 ^ 1024)\<rceil> = 1" .
  have s2: "read_selection (example_env [(''tree'', example_tree)]) ''f.root'' None (Str ''x'') NoArg
              = Inr (example_tree, [''x'', ''index''])"
    by (simp add: read_selection_def resolve_tree_key_def list_trees_def select_columns_def
        apply_ignore_def get_matching_variables_def glob_match_def example_env_simps
        example_tree_def Let_def expand_braces.simps group_here_def)
  have m53: "length (entries example_tree) < 2 ^ 53" by (simp add: m)
  have o: "read_root (example_env [(''tree'', example_tree)]) ''f.root'' None (Str ''x'') NoArg
             (Some (2 ^ 1024)) None = Inr (Chunks (Inl OverflowError))"
    using s2 genchunks_overflow[OF m53 py_float_overflow[of "2 ^ 1024"], of "example_env [(''tree'', example_tree)]"
        "[''x'', ''index'']" None]
    by (simp add: read_root_def)
  from n cl y w clw yw m cl2 o show ?thesis by (intro conjI)
qed

text \<open>
  Claim C2, as the code has it. Take a call that reaches a tree with a branch named
  \<open>index\<close>. Whenever the call resolves a selection, \<open>index\<close> is in it, whatever the include
  patterns are. And if an ignore pattern matches \<open>index\<close>, the call fails: with the
  \<open>ValueError\<close> \<open>index variable is being ignored!\<close> provided the include patterns are
  resolved without an error, which happens first.
\<close>

theorem index_column_reserved:
  assumes "importable env"
    and "resolve_tree_key env path tree_key = Inr key"
    and "map_of (files env path) key = Some t"
    and "''index'' \<in> set (branch_names t)"
    and "fnmatch env ''index'' ''index''"
    and "list_set_ok (list_set env)"
  shows "(read_selection env path tree_key columns ignore = Inr (t', selected)
            \<longrightarrow> ''index'' \<in> set selected)
       \<and> (truthy ignore \<and> (\<exists>p \<in> set (as_list ignore). fnmatch env ''index'' p)
            \<longrightarrow> (\<exists>e. read_root env path tree_key columns ignore chunksize wher = Inl e))
       \<and> (truthy ignore \<and> (\<exists>p \<in> set (as_list ignore). fnmatch env ''index'' p)
          \<and> (\<exists>all_vars. select_columns env (branch_names t) columns = Inr all_vars)
            \<longrightarrow> read_root env path tree_key columns ignore chunksize wher
                  = Inl (ValueError ''index variable is being ignored!''))"
proof (intro conjI impI)
  assume rs: "read_selection env path tree_key columns ignore = Inr (t', selected)"
  with assms(1,2,3) obtain all_vars where
    sc: "select_columns env (branch_names t) columns = Inr all_vars"
    and ai: "apply_ignore env (branch_names t) ignore all_vars = Inr selected"
    by (auto simp: read_selection_def Let_def split: sum.splits)
  from select_columns_has_index[OF sc assms(4,5,6)] have "''index'' \<in> set all_vars" .
  from apply_ignore_keeps_index[OF ai this] show "''index'' \<in> set selected" .
next
  assume h: "truthy ignore \<and> (\<exists>p \<in> set (as_list ignore). fnmatch env ''index'' p)"
  then obtain p where p: "p \<in> set (as_list ignore)" "fnmatch env ''index'' p" by blast
  from h have ti: "truthy ignore" by simp
  have "\<exists>e. read_selection env path tree_key columns ignore = Inl e"
    using assms(1,2,3) apply_ignore_index_error[OF ti p assms(4,6)]
    by (auto simp: read_selection_def Let_def split: sum.splits)
  then show "\<exists>e. read_root env path tree_key columns ignore chunksize wher = Inl e"
    by (simp add: read_root_error)
next
  assume h: "truthy ignore \<and> (\<exists>p \<in> set (as_list ignore). fnmatch env ''index'' p)
          \<and> (\<exists>all_vars. select_columns env (branch_names t) columns = Inr all_vars)"
  then obtain p all_vars where p: "p \<in> set (as_list ignore)" "fnmatch env ''index'' p"
    and sc: "select_columns env (branch_names t) columns = Inr all_vars" by blast
  from h have ti: "truthy ignore" by simp
  have "read_selection env path tree_key columns ignore
      = Inl (ValueError ''index variable is being ignored!'')"
    using assms(1,2,3) sc apply_ignore_index_error[OF ti p assms(4,6), of all_vars]
    by (simp add: read_selection_def Let_def)
  then show "read_root env path tree_key columns ignore chunksize wher
                  = Inl (ValueError ''index variable is being ignored!'')"
    by (simp add: read_root_error)
qed

theorem index_column_reserved_witness:
  "importable (example_env [(''tree'', example_tree)])
   \<and> resolve_tree_key (example_env [(''tree'', example_tree)]) ''f.root'' (Some ''tree'') = Inr ''tree''
   \<and> map_of (files (example_env [(''tree'', example_tree)]) ''f.root'') ''tree'' = Some example_tree
   \<and> ''index'' \<in> set (branch_names example_tree)
   \<and> fnmatch (example_env [(''tree'', example_tree)]) ''index'' ''index''
   \<and> list_set_ok (list_set (example_env [(''tree'', example_tree)]))
   \<and> read_selection (example_env [(''tree'', example_tree)]) ''f.root'' (Some ''tree'')
        (StrList [''A{B,C}'']) NoArg
       = Inr (example_tree, [''AB'', ''AC'', ''index''])
   \<and> ''index'' \<in> set [''AB'', ''AC'', ''index'']
   \<and> truthy (Str ''in*'')
   \<and> fnmatch (example_env [(''tree'', example_tree)]) ''index'' ''in*''
   \<and> select_columns (example_env [(''tree'', example_tree)]) (branch_names example_tree) NoArg
       = Inr (branch_names example_tree)
   \<and> read_root (example_env [(''tree'', example_tree)]) ''f.root'' (Some ''tree'') NoArg (Str ''in*'')
        None None
       = Inl (ValueError ''index variable is being ignored!'')"
proof -
  let ?env = "example_env [(''tree'', example_tree)]"
  have 1: "importable ?env" by (simp add: example_env_simps)
  have 2: "resolve_tree_key ?env ''f.root'' (Some ''tree'') = Inr ''tree''"
    by (simp add: resolve_tree_key_def)
  have 3: "map_of (files ?env ''f.root'') ''tree'' = Some example_tree"
    by (simp add: example_env_simps)
  have 4: "''index'' \<in> set (branch_names example_tree)" by (simp add: example_tree_def)
  have 5: "fnmatch ?env ''index'' ''index''" by (simp add: example_env_simps glob_match_def)
  have 6: "list_set_ok (list_set ?env)" by (simp add: example_env_simps list_set_ok_remdups)
  note inst = index_column_reserved[OF 1 2 3 4 5 6]
  have 7: "''index'' \<in> set [''AB'', ''AC'', ''index'']"
    using inst[of "StrList [''A{B,C}'']" NoArg example_tree "[''AB'', ''AC'', ''index'']"]
      example_read_index by blast
  have 8: "truthy (Str ''in*'')" by simp
  have 9: "fnmatch ?env ''index'' ''in*''" by (simp add: example_env_simps glob_match_def)
  have 10: "select_columns ?env (branch_names example_tree) NoArg = Inr (branch_names example_tree)"
    by (simp add: select_columns_def)
  have 11: "read_root ?env ''f.root'' (Some ''tree'') NoArg (Str ''in*'') None None
       = Inl (ValueError ''index variable is being ignored!'')"
    using inst[of NoArg "Str ''in*''" _ _ None None] 8 9 10 by auto
  from 1 2 3 4 5 6 7 8 9 10 11 example_read_index show ?thesis by blast
qed

text \<open>
  The claim as stated fails: an ignore pattern matches \<open>index\<close>, but an include pattern
  matches nothing, and the call fails with the error of the include pattern.
\<close>

theorem index_ignored_counterexample:
  "''index'' \<in> set (branch_names example_tree)
   \<and> glob_match ''index'' ''index''
   \<and> read_root (example_env [(''tree'', example_tree)]) ''f.root'' (Some ''tree'')
        (StrList [''nomatch'']) (StrList [''index'']) None None
       = Inl (ValueError (pattern_message ''nomatch''))
   \<and> pattern_message ''nomatch'' \<noteq> ''index variable is being ignored!''"
  by (simp add: read_root_def read_selection_def resolve_tree_key_def select_columns_def
      get_matching_variables_def glob_match_def example_env_simps example_tree_def Let_def
      expand_braces.simps group_here_def pattern_message_def)

text \<open>
  Claim C3 fails on a tree with the branches \<open>x{a,b}\<close>, \<open>xa\<close> and \<open>xb\<close>: with the include
  pattern \<open>x*\<close> and the ignore pattern \<open>x{*\<close>, which matches the first branch only, the
  selection that \<open>read_root\<close> reads is the ignored branch \<open>x{a,b}\<close> alone. The names \<open>xa\<close> and
  \<open>xb\<close>, which come from expanding the ignored branch name, are removed in its place.
\<close>

theorem ignored_brace_column_kept:
  "glob_match ''x{a,b}'' ''x{*'' \<and> \<not> glob_match ''xa'' ''x{*'' \<and> \<not> glob_match ''xb'' ''x{*''
   \<and> branch_names brace_tree = [''x{a,b}'', ''xa'', ''xb'']
   \<and> read_selection (example_env [(''tree'', brace_tree)]) ''f.root'' (Some ''tree'')
        (StrList [''x*'']) (StrList [''x{*''])
       = Inr (brace_tree, [''x{a,b}''])"
  by (simp add: read_selection_def resolve_tree_key_def select_columns_def apply_ignore_def
      get_matching_variables_def glob_match_def example_env_simps brace_tree_def Let_def
      expand_braces.simps group_here_def strip_def slice_to_def slice_from_def)

text \<open>
  Claim C4, as the code has it. Without a tree key (\<open>None\<close> or the empty string) and
  with a number of trees other than one, the call fails with the \<open>ValueError\<close> whose
  message is \<open>More than one tree found in\<close> followed by the path: the message names the
  file, not the tree keys, also when the file has no tree at all. With exactly one tree
  the call does what it does when that tree's key is given, and it does not fail with
  this error.
\<close>

theorem tree_key_resolution:
  assumes "importable env" and "tree_key = None \<or> tree_key = Some []"
  shows "(length (list_trees env path) \<noteq> 1 \<longrightarrow>
            read_root env path tree_key columns ignore chunksize wher
              = Inl (ValueError (''More than one tree found in '' @ path)))
       \<and> (list_trees env path = [k] \<longrightarrow>
            resolve_tree_key env path tree_key = Inr k
            \<and> read_root env path tree_key columns ignore chunksize wher
                = read_root env path (Some k) columns ignore chunksize wher
            \<and> read_root env path tree_key columns ignore chunksize wher
                \<noteq> Inl (ValueError (''More than one tree found in '' @ path)))"
proof (intro conjI impI)
  assume "length (list_trees env path) \<noteq> 1"
  then have "resolve_tree_key env path tree_key = Inl (ValueError (''More than one tree found in '' @ path))"
    using assms(2) by (auto simp: resolve_tree_key_def split: list.splits)
  then show "read_root env path tree_key columns ignore chunksize wher
              = Inl (ValueError (''More than one tree found in '' @ path))"
    using assms(1) by (simp add: read_root_def read_selection_def)
next
  assume one: "list_trees env path = [k]"
  then show r: "resolve_tree_key env path tree_key = Inr k"
    using assms(2) by (auto simp: resolve_tree_key_def)
  have r': "resolve_tree_key env path (Some k) = Inr k"
    using one by (auto simp: resolve_tree_key_def)
  show "read_root env path tree_key columns ignore chunksize wher
                = read_root env path (Some k) columns ignore chunksize wher"
    by (simp add: read_root_def read_selection_def r r')
  show "read_root env path tree_key columns ignore chunksize wher
                \<noteq> Inl (ValueError (''More than one tree found in '' @ path))"
  proof
    assume "read_root env path tree_key columns ignore chunksize wher
                = Inl (ValueError (''More than one tree found in '' @ path))"
    then have e: "read_selection env path tree_key columns ignore
                = Inl (ValueError (''More than one tree found in '' @ path))"
      by (simp add: read_root_error)
    with r assms(1) show False
      by (auto simp: read_selection_def Let_def pattern_message_def
          split: option.splits sum.splits dest!: select_columns_error apply_ignore_error)
  qed
qed

theorem tree_key_resolution_witness:
  "importable (example_env [(''tree'', example_tree)])
   \<and> list_trees (example_env [(''tree'', example_tree)]) ''f.root'' = [''tree'']
   \<and> resolve_tree_key (example_env [(''tree'', example_tree)]) ''f.root'' None = Inr ''tree''
   \<and> length (list_trees (example_env []) ''f.root'') \<noteq> 1
   \<and> read_root (example_env []) ''f.root'' None NoArg NoArg None None
       = Inl (ValueError ''More than one tree found in f.root'')"
proof -
  have i: "importable (example_env trees)" for trees by (simp add: example_env_def)
  have a: "list_trees (example_env [(''tree'', example_tree)]) ''f.root'' = [''tree'']"
    by (simp add: list_trees_def example_env_def)
  have b: "length (list_trees (example_env []) ''f.root'') \<noteq> 1"
    by (simp add: list_trees_def example_env_def)
  from tree_key_resolution[where env = "example_env [(''tree'', example_tree)]"
      and tree_key = None and path = "''f.root''" and k = "''tree''"] i a
  have c: "resolve_tree_key (example_env [(''tree'', example_tree)]) ''f.root'' None = Inr ''tree''"
    by simp
  from tree_key_resolution[where env = "example_env []" and tree_key = None
      and path = "''f.root''" and columns = NoArg and ignore = NoArg and chunksize = None
      and wher = None] i b
  have d: "read_root (example_env []) ''f.root'' None NoArg NoArg None None
       = Inl (ValueError ''More than one tree found in f.root'')"
    by simp
  from i a b c d show ?thesis by blast
qed

text \<open>
  The claim as stated fails: with the trees \<open>t1\<close> and \<open>t2\<close> in the file, the message of
  the error contains neither key.
\<close>

theorem tree_key_message_counterexample:
  "list_trees (example_env [(''t1'', example_tree), (''t2'', example_tree)]) ''f.root'' = [''t1'', ''t2'']
   \<and> read_root (example_env [(''t1'', example_tree), (''t2'', example_tree)]) ''f.root'' None
         NoArg NoArg None None
       = Inl (ValueError ''More than one tree found in f.root'')
   \<and> str_find ''More than one tree found in f.root'' ''t1'' = - 1
   \<and> str_find ''More than one tree found in f.root'' ''t2'' = - 1"
  by (simp add: read_root_def read_selection_def resolve_tree_key_def list_trees_def example_env_def)

text \<open>
  Claim C10. With \<open>columns\<close> an empty list or an empty string the call does what it does
  without \<open>columns\<close>: the same result, and the same selection. If also \<open>ignore\<close> is absent
  or empty, the selection is the full list of branches of the tree. The \<open>ValueError\<close> of a
  pattern that matches nothing cannot come out of such a call.
\<close>

theorem empty_columns_select_all:
  assumes "columns = StrList [] \<or> columns = Str []"
  shows "read_root env path tree_key columns ignore chunksize wher
           = read_root env path tree_key NoArg ignore chunksize wher
       \<and> read_selection env path tree_key columns ignore
           = read_selection env path tree_key NoArg ignore
       \<and> (\<not> truthy ignore \<and> read_selection env path tree_key columns ignore = Inr (t, selected)
            \<longrightarrow> selected = branch_names t)
       \<and> read_root env path tree_key columns ignore chunksize wher
           \<noteq> Inl (ValueError (pattern_message p))"
proof -
  from assms have f: "\<not> truthy columns" by auto
  have 1: "read_selection env path tree_key columns ignore
           = read_selection env path tree_key NoArg ignore"
    by (rule read_selection_falsy[OF f])
  then have 2: "read_root env path tree_key columns ignore chunksize wher
           = read_root env path tree_key NoArg ignore chunksize wher"
    by (simp add: read_root_def)
  have 3: "\<not> truthy ignore \<and> read_selection env path tree_key columns ignore = Inr (t, selected)
            \<longrightarrow> selected = branch_names t"
    using f
    by (auto simp: read_selection_def select_columns_def apply_ignore_def Let_def
        split: if_splits sum.splits option.splits)
  have 4: "read_root env path tree_key columns ignore chunksize wher
           \<noteq> Inl (ValueError (pattern_message p))"
  proof
    assume "read_root env path tree_key columns ignore chunksize wher
           = Inl (ValueError (pattern_message p))"
    then have "read_selection env path tree_key columns ignore = Inl (ValueError (pattern_message p))"
      by (simp add: read_root_error)
    from read_selection_error_cases[OF this] f show False
      by (auto simp: pattern_message_def)
  qed
  from 1 2 3 4 show ?thesis by blast
qed

theorem empty_columns_select_all_witness:
  "read_selection (example_env [(''tree'', example_tree)]) ''f.root'' None (StrList []) (Str [])
     = Inr (example_tree, [''index'', ''AB'', ''AC'', ''x''])
   \<and> branch_names example_tree = [''index'', ''AB'', ''AC'', ''x'']
   \<and> read_selection (example_env [(''tree'', example_tree)]) ''f.root'' None NoArg (Str [])
     = Inr (example_tree, [''index'', ''AB'', ''AC'', ''x''])"
proof -
  let ?env = "example_env [(''tree'', example_tree)]"
  have a: "read_selection ?env ''f.root'' None (StrList []) (Str [])
     = Inr (example_tree, [''index'', ''AB'', ''AC'', ''x''])"
    by (simp add: read_selection_def resolve_tree_key_def list_trees_def select_columns_def
        apply_ignore_def example_env_simps example_tree_def)
  have b: "branch_names example_tree = [''index'', ''AB'', ''AC'', ''x'']"
    by (simp add: example_tree_def)
  from empty_columns_select_all[where columns = "StrList []" and env = ?env and path = "''f.root''"
      and tree_key = None and ignore = "Str []"] a
  have "read_selection ?env ''f.root'' None NoArg (Str [])
     = Inr (example_tree, [''index'', ''AB'', ''AC'', ''x''])" by simp
  with a b show ?thesis by blast
qed

end
